theory Spec2Isabelle
  imports Main
begin

section \<open>Strings\<close>

text \<open>
  A JavaScript string is a sequence of UTF-16 code units. A code unit is modelled as a
  natural number, so that the line terminators U+2028 and U+2029, which the regular
  expression dot refuses, are values of the type. \<open>js\<close> embeds an ASCII literal.
\<close>

type_synonym jsstring = "nat list"

definition js :: "string \<Rightarrow> jsstring" where
  "js s = map of_char s"

text \<open>\<open>String.prototype.startsWith\<close>, \<open>endsWith\<close> and \<open>includes\<close> (here \<open>includes_str\<close>).\<close>

definition startsWith :: "jsstring \<Rightarrow> jsstring \<Rightarrow> bool" where
  "startsWith s p \<longleftrightarrow> take (length p) s = p"

definition endsWith :: "jsstring \<Rightarrow> jsstring \<Rightarrow> bool" where
  "endsWith s p \<longleftrightarrow> length p \<le> length s \<and> drop (length s - length p) s = p"

fun includes_str :: "jsstring \<Rightarrow> jsstring \<Rightarrow> bool" where
  "includes_str [] p = startsWith [] p"
| "includes_str (c # cs) p = (startsWith (c # cs) p \<or> includes_str cs p)"

text \<open>
  \<open>s.slice(a, -b)\<close> for non-negative \<open>a\<close> and \<open>b\<close>: the start is clamped to the
  length, the end counts from the back and is clamped to zero, and an end before the
  start gives the empty string.
\<close>

definition slice :: "jsstring \<Rightarrow> nat \<Rightarrow> nat \<Rightarrow> jsstring" where
  "slice s a b =
     (let len = length s; from = min a len; to = len - b
      in take (to - from) (drop from s))"

text \<open>
  \<open>text.split('\n')\<close>: splitting on the one-character separator U+000A. \<open>acc\<close> holds
  the characters of the piece being read.
\<close>

fun split_nl :: "jsstring \<Rightarrow> jsstring \<Rightarrow> jsstring list" where
  "split_nl acc [] = [acc]"
| "split_nl acc (c # cs) =
     (if c = 10 then acc # split_nl [] cs else split_nl (acc @ [c]) cs)"

section \<open>The inline markup of \<open>renderFormattedText\<close>\<close>

text \<open>
  The line is split by the regular expression
  \<^verbatim>\<open>/(<b>.*?<\/b>|<mark>.*?<\/mark>)/g\<close>.
  The dot matches every code unit but a line terminator.
\<close>

definition isLineTerminator :: "nat \<Rightarrow> bool" where
  "isLineTerminator c \<longleftrightarrow> c = 10 \<or> c = 13 \<or> c = 8232 \<or> c = 8233"

definition tag_b :: jsstring where "tag_b = js ''<b>''"
definition tag_b_end :: jsstring where "tag_b_end = js ''</b>''"
definition tag_mark :: jsstring where "tag_mark = js ''<mark>''"
definition tag_mark_end :: jsstring where "tag_mark_end = js ''</mark>''"

text \<open>
  The lazy \<^verbatim>\<open>.*?\<close> followed by the closing tag \<open>cls\<close>: the backtracking matcher first
  tries the closing tag here, and only when that fails lets the dot take one more code
  unit. The result is the text taken by the dots and what follows the closing tag.
\<close>

fun lazy_dots :: "jsstring \<Rightarrow> jsstring \<Rightarrow> (jsstring \<times> jsstring) option" where
  "lazy_dots cls [] =
     (if startsWith [] cls then Some ([], drop (length cls) []) else None)"
| "lazy_dots cls (c # cs) =
     (if startsWith (c # cs) cls then Some ([], drop (length cls) (c # cs))
      else if isLineTerminator c then None
      else (case lazy_dots cls cs of
              None \<Rightarrow> None
            | Some (body, rest) \<Rightarrow> Some (c # body, rest)))"

text \<open>One alternative of the pattern, tried at the start of \<open>s\<close>.\<close>

definition exec_tag ::
  "jsstring \<Rightarrow> jsstring \<Rightarrow> jsstring \<Rightarrow> (jsstring \<times> jsstring) option" where
  "exec_tag opn cls s =
     (if startsWith s opn then
        (case lazy_dots cls (drop (length opn) s) of
           None \<Rightarrow> None
         | Some (body, rest) \<Rightarrow> Some (opn @ body @ cls, rest))
      else None)"

text \<open>
  The whole pattern at the start of \<open>s\<close>: the left alternative first. The result is the
  matched text, which is also the captured group, and the rest of the string.
\<close>

definition regex_exec_at :: "jsstring \<Rightarrow> (jsstring \<times> jsstring) option" where
  "regex_exec_at s =
     (case exec_tag tag_b tag_b_end s of
        Some r \<Rightarrow> Some r
      | None \<Rightarrow> exec_tag tag_mark tag_mark_end s)"

lemma lazy_dots_length:
  "lazy_dots cls s = Some (body, rest) \<Longrightarrow> length rest \<le> length s"
proof (induction s arbitrary: body)
  case Nil
  then show ?case by (simp split: if_splits)
next
  case (Cons c cs)
  show ?case
  proof (cases "startsWith (c # cs) cls")
    case True
    with Cons.prems have "rest = drop (length cls) (c # cs)" by simp
    then show ?thesis by simp
  next
    case False
    with Cons.prems obtain b where "lazy_dots cls cs = Some (b, rest)"
      by (auto split: if_splits option.splits)
    from Cons.IH [OF this] show ?thesis by simp
  qed
qed

lemma startsWith_length: "startsWith s p \<Longrightarrow> length p \<le> length s"
proof -
  assume "startsWith s p"
  then have "length (take (length p) s) = length p"
    by (simp add: startsWith_def)
  then show ?thesis by simp
qed

lemma exec_tag_length:
  "exec_tag opn cls s = Some (m, rest) \<Longrightarrow> opn \<noteq> [] \<Longrightarrow> length rest < length s"
proof -
  assume a: "exec_tag opn cls s = Some (m, rest)" and ne: "opn \<noteq> []"
  from a have sw: "startsWith s opn"
    by (simp add: exec_tag_def split: if_splits)
  with a obtain body where
    ld: "lazy_dots cls (drop (length opn) s) = Some (body, rest)"
    by (auto simp: exec_tag_def split: option.splits)
  from sw have "length opn \<le> length s" by (rule startsWith_length)
  moreover from ne have "0 < length opn" by simp
  moreover from lazy_dots_length [OF ld]
  have "length rest \<le> length s - length opn" by simp
  ultimately show ?thesis by linarith
qed

lemma tag_b_ne: "tag_b \<noteq> []" by (simp add: tag_b_def js_def)
lemma tag_mark_ne: "tag_mark \<noteq> []" by (simp add: tag_mark_def js_def)

lemma regex_exec_at_length:
  "regex_exec_at s = Some (m, rest) \<Longrightarrow> length rest < length s"
  unfolding regex_exec_at_def
  by (auto split: option.splits dest: exec_tag_length [OF _ tag_b_ne] exec_tag_length [OF _ tag_mark_ne])

text \<open>
  \<open>line.split(regex)\<close> with one capturing group around the whole pattern: the scan
  tries the pattern at each position from left to right; on a match it emits the text
  read since the last match, then the captured text, and goes on after the match; at
  the end it emits the text left over. Empty pieces are emitted like any other.
\<close>

function split_regex :: "jsstring \<Rightarrow> jsstring \<Rightarrow> jsstring list" where
  "split_regex acc [] = [acc]"
| "split_regex acc (c # cs) =
     (case regex_exec_at (c # cs) of
        Some (m, rest) \<Rightarrow> acc # m # split_regex [] rest
      | None \<Rightarrow> split_regex (acc @ [c]) cs)"
  by pat_completeness auto
termination
  by (relation "measure (\<lambda>(acc, s). length s)")
     (auto dest: regex_exec_at_length)

datatype segment = PlainText jsstring | Bold jsstring | Highlight jsstring

text \<open>The callback of the inner \<open>map\<close>: one piece of the split becomes one element.\<close>

definition render_part :: "jsstring \<Rightarrow> segment" where
  "render_part part =
     (if startsWith part tag_b \<and> endsWith part tag_b_end then Bold (slice part 3 4)
      else if startsWith part tag_mark \<and> endsWith part tag_mark_end
        then Highlight (slice part 6 7)
      else PlainText part)"

definition render_line :: "jsstring \<Rightarrow> segment list" where
  "render_line line = map render_part (split_regex [] line)"

text \<open>
  One fragment per line: its segments, and whether a \<^verbatim>\<open><br />\<close> follows them, which
  is the case for every line but the last.
\<close>

record fragment =
  segments :: "segment list"
  br :: bool

text \<open>The result is \<open>null\<close> (here \<open>None\<close>) for the empty string.\<close>

definition renderFormattedText :: "jsstring \<Rightarrow> fragment list option" where
  "renderFormattedText text =
     (if text = [] then None
      else
        (let arr = split_nl [] text
         in Some (map (\<lambda>(i, line). \<lparr>segments = render_line line,
                                     br = (i < length arr - 1)\<rparr>)
                      (enumerate 0 arr))))"

subsection \<open>Reading the output\<close>

text \<open>
  The source text a segment stands for, whether a segment is one of the two tagged
  kinds, the lines of segments in a result (none for \<open>null\<close>), and the line made of
  one plain segment.
\<close>

fun segment_source :: "segment \<Rightarrow> jsstring" where
  "segment_source (PlainText t) = t"
| "segment_source (Bold t) = tag_b @ t @ tag_b_end"
| "segment_source (Highlight t) = tag_mark @ t @ tag_mark_end"


definition output_lines :: "fragment list option \<Rightarrow> segment list list" where
  "output_lines r = (case r of None \<Rightarrow> [] | Some frs \<Rightarrow> map segments frs)"

definition plain_line :: "jsstring \<Rightarrow> segment list" where
  "plain_line l = [PlainText l]"

section \<open>The publishing workflow of \<open>services/meta.ts\<close>\<close>

definition API_VERSION :: jsstring where
  "API_VERSION = js ''v19.0''"

definition MOCK_USER_ID :: jsstring where
  "MOCK_USER_ID = js ''123456789''"

text \<open>The interface \<open>InstagramUser\<close>; its field \<open>id\<close> is \<open>user_id\<close> here.\<close>

record InstagramUser =
  user_id :: jsstring
  name :: jsstring
  username :: jsstring
  profile_picture_url :: "jsstring option"
  accessToken :: jsstring

text \<open>A \<open>Blob\<close> is its bytes.\<close>

type_synonym blob = "nat list"

text \<open>
  What a \<open>throw\<close> of the workflow carries: \<open>new Error(data.error.message)\<close>, the
  \<open>URIError\<close> of \<open>encodeURIComponent\<close>, or whatever a rejected \<open>fetch\<close> or
  \<open>res.json()\<close> threw.
\<close>

datatype error = Error jsstring | URIError | TransportError jsstring

text \<open>
  What one \<open>POST\<close> to the Graph API comes to: the request is rejected (or its body is
  not JSON), or the body carries \<open>error\<close> with its \<open>message\<close>, or it carries the \<open>id\<close>
  of the created object. These are the answers of the API; a body with neither
  \<open>error\<close> nor \<open>id\<close> is not one of them.
\<close>

datatype fetch_result = Rejected jsstring | ErrorPayload jsstring | Created jsstring

text \<open>
  What a run does that can be observed, in the order it happens: a call of the progress
  sink, the call and the return of \<open>uploadImageToPublicServer\<close>, the calls of
  \<open>createItemContainer\<close> (user id, image URL, access token, caption, carousel-item
  flag), \<open>createCarouselContainer\<close> (user id, children ids, access token, caption)
  and \<open>publishMedia\<close> (user id, creation id, access token), a \<open>fetch\<close> with its URL and
  what came back, and the id one of these three calls returned. Console output and
  timers are left out.
\<close>

datatype event =
    Progress jsstring
  | UploadCall blob
  | UploadReturn jsstring
  | ItemCall jsstring jsstring jsstring jsstring bool
  | CarouselCall jsstring "jsstring list" jsstring jsstring
  | PublishCall jsstring jsstring jsstring
  | Fetch jsstring fetch_result
  | Returned jsstring

text \<open>
  What the code takes from outside. \<open>encodeURIComponent\<close> is the built-in, \<open>None\<close>
  when it throws \<open>URIError\<close>. \<open>math_random\<close> and \<open>date_now\<close> give the text that
  \<open>Math.random()\<close> and \<open>Date.now()\<close> put into a template, and \<open>remote\<close> answers a
  \<open>POST\<close> to a URL; each may depend on everything the run has done so far.
\<close>

record env =
  encodeURIComponent :: "jsstring \<Rightarrow> jsstring option"
  math_random :: "event list \<Rightarrow> jsstring"
  date_now :: "event list \<Rightarrow> jsstring"
  remote :: "event list \<Rightarrow> jsstring \<Rightarrow> fetch_result"

text \<open>A number in a template string: its decimal digits.\<close>

fun num_str :: "nat \<Rightarrow> jsstring" where
  "num_str n = (if n < 10 then [48 + n] else num_str (n div 10) @ [48 + n mod 10])"

declare num_str.simps [simp del]

text \<open>\<open>Array.prototype.join\<close>.\<close>

fun join :: "jsstring \<Rightarrow> jsstring list \<Rightarrow> jsstring" where
  "join sep [] = []"
| "join sep [x] = x"
| "join sep (x # y # ys) = x @ sep @ join sep (y # ys)"

text \<open>
  \<open>if (onProgress) onProgress(msg)\<close>: \<open>sink\<close> says whether a sink was passed. The
  sink is the caller's function; it is taken to return.
\<close>

definition notify :: "bool \<Rightarrow> jsstring \<Rightarrow> event list" where
  "notify sink msg = (if sink then [Progress msg] else [])"

text \<open>
  Every function below takes the events of the run so far, \<open>h\<close>, and returns its result
  with the events it adds. A result is \<open>Inl\<close> for a \<open>throw\<close>.
\<close>

definition uploadImageToPublicServer ::
  "env \<Rightarrow> event list \<Rightarrow> blob \<Rightarrow> jsstring \<times> event list" where
  "uploadImageToPublicServer E h b =
     (let url = js ''https://images.unsplash.com/photo-1611162617474-5b21e879e113?w=1080&q=80&random=''
                @ math_random E (h @ [UploadCall b])
      in (url, [UploadCall b, UploadReturn url]))"

text \<open>
  The three lines shared by the three Graph API functions: \<open>fetch\<close> with \<open>POST\<close>,
  \<open>res.json()\<close>, and the \<open>throw\<close> when the body carries \<open>error\<close>.
\<close>

definition fetch_post ::
  "env \<Rightarrow> event list \<Rightarrow> jsstring \<Rightarrow> (error + jsstring) \<times> event list" where
  "fetch_post E h url =
     (case remote E h url of
        Rejected m \<Rightarrow> (Inl (TransportError m), [Fetch url (Rejected m)])
      | ErrorPayload m \<Rightarrow> (Inl (Error m), [Fetch url (ErrorPayload m)])
      | Created i \<Rightarrow> (Inr i, [Fetch url (Created i), Returned i]))"

definition createItemContainer ::
  "env \<Rightarrow> event list \<Rightarrow> jsstring \<Rightarrow> jsstring \<Rightarrow> jsstring \<Rightarrow> jsstring \<Rightarrow> bool
   \<Rightarrow> (error + jsstring) \<times> event list" where
  "createItemContainer E h userId imageUrl token caption isCarouselItem =
     (let call = [ItemCall userId imageUrl token caption isCarouselItem] in
      case encodeURIComponent E imageUrl of
        None \<Rightarrow> (Inl URIError, call)
      | Some eu \<Rightarrow>
         (let url0 = js ''https://graph.facebook.com/'' @ API_VERSION @ js ''/'' @ userId
                     @ js ''/media?image_url='' @ eu @ js ''&access_token='' @ token
          in case (if isCarouselItem then Some (url0 @ js ''&is_carousel_item=true'')
                   else map_option (\<lambda>ec. url0 @ js ''&caption='' @ ec)
                          (encodeURIComponent E caption)) of
               None \<Rightarrow> (Inl URIError, call)
             | Some url \<Rightarrow>
                 if userId = MOCK_USER_ID then
                   (let i = js ''item_container_'' @ date_now E (h @ call) @ js ''_''
                            @ math_random E (h @ call)
                    in (Inr i, call @ [Returned i]))
                 else (let (r, ev) = fetch_post E (h @ call) url in (r, call @ ev))))"

definition createCarouselContainer ::
  "env \<Rightarrow> event list \<Rightarrow> jsstring \<Rightarrow> jsstring list \<Rightarrow> jsstring \<Rightarrow> jsstring
   \<Rightarrow> (error + jsstring) \<times> event list" where
  "createCarouselContainer E h userId childrenIds token caption =
     (let call = [CarouselCall userId childrenIds token caption] in
      case encodeURIComponent E caption of
        None \<Rightarrow> (Inl URIError, call)
      | Some ec \<Rightarrow>
         (let url = js ''https://graph.facebook.com/'' @ API_VERSION @ js ''/'' @ userId
                    @ js ''/media?media_type=CAROUSEL&children='' @ join (js '','') childrenIds
                    @ js ''&caption='' @ ec @ js ''&access_token='' @ token
          in if userId = MOCK_USER_ID then
               (let i = js ''carousel_container_'' @ date_now E (h @ call)
                in (Inr i, call @ [Returned i]))
             else (let (r, ev) = fetch_post E (h @ call) url in (r, call @ ev))))"

definition publishMedia ::
  "env \<Rightarrow> event list \<Rightarrow> jsstring \<Rightarrow> jsstring \<Rightarrow> jsstring
   \<Rightarrow> (error + jsstring) \<times> event list" where
  "publishMedia E h userId creationId token =
     (let call = [PublishCall userId creationId token];
          url = js ''https://graph.facebook.com/'' @ API_VERSION @ js ''/'' @ userId
                @ js ''/media_publish?creation_id='' @ creationId
                @ js ''&access_token='' @ token
      in if userId = MOCK_USER_ID then
           (let i = js ''published_media_'' @ date_now E (h @ call)
            in (Inr i, call @ [Returned i]))
         else (let (r, ev) = fetch_post E (h @ call) url in (r, call @ ev)))"

text \<open>The two progress messages that carry the index \<open>i\<close> of the loop.\<close>

definition uploading_msg :: "nat \<Rightarrow> nat \<Rightarrow> jsstring" where
  "uploading_msg i n =
     js ''Uploading slide '' @ num_str (i + 1) @ js '' of '' @ num_str n @ js ''...''"

definition preparing_msg :: "nat \<Rightarrow> jsstring" where
  "preparing_msg i = js ''Preparing slide '' @ num_str (i + 1) @ js '' for Instagram...''"

text \<open>
  Step 1, the loop over \<open>slideBlobs\<close>: \<open>n\<close> is \<open>slideBlobs.length\<close>, \<open>i\<close> the index of
  the first blob of the list still to do. The result is what the loop pushes on
  \<open>imageUrls\<close>.
\<close>

fun upload_loop ::
  "env \<Rightarrow> event list \<Rightarrow> bool \<Rightarrow> nat \<Rightarrow> nat \<Rightarrow> blob list \<Rightarrow> jsstring list \<times> event list" where
  "upload_loop E h sink n i [] = ([], [])"
| "upload_loop E h sink n i (b # bs) =
     (let ev1 = notify sink (uploading_msg i n);
          (url, ev2) = uploadImageToPublicServer E (h @ ev1) b;
          (urls, ev3) = upload_loop E (h @ ev1 @ ev2) sink n (i + 1) bs
      in (url # urls, ev1 @ ev2 @ ev3))"

text \<open>
  Step 2 of the carousel branch, the loop over \<open>imageUrls\<close>. The result is what the
  loop pushes on \<open>itemContainers\<close>; a \<open>throw\<close> of \<open>createItemContainer\<close> ends it.
\<close>

fun item_loop ::
  "env \<Rightarrow> event list \<Rightarrow> bool \<Rightarrow> InstagramUser \<Rightarrow> nat \<Rightarrow> jsstring list
   \<Rightarrow> (error + jsstring list) \<times> event list" where
  "item_loop E h sink user i [] = (Inr [], [])"
| "item_loop E h sink user i (url # urls) =
     (let ev1 = notify sink (preparing_msg i);
          (r, ev2) = createItemContainer E (h @ ev1) (user_id user) url (accessToken user)
                       [] True
      in case r of
           Inl e \<Rightarrow> (Inl e, ev1 @ ev2)
         | Inr c \<Rightarrow>
            (let (rs, ev3) = item_loop E (h @ ev1 @ ev2) sink user (i + 1) urls
             in case rs of
                  Inl e \<Rightarrow> (Inl e, ev1 @ ev2 @ ev3)
                | Inr cs \<Rightarrow> (Inr (c # cs), ev1 @ ev2 @ ev3)))"

text \<open>Step 3: the progress message and \<open>publishMedia\<close> on \<open>creationId\<close>.\<close>

definition finalize ::
  "env \<Rightarrow> event list \<Rightarrow> bool \<Rightarrow> InstagramUser \<Rightarrow> jsstring
   \<Rightarrow> (error + jsstring) \<times> event list" where
  "finalize E h sink user creationId =
     (let ev1 = notify sink (js ''Finalizing publication...'');
          (r, ev2) = publishMedia E (h @ ev1) (user_id user) creationId (accessToken user)
      in (r, ev1 @ ev2))"

text \<open>
  The run starts with no events. The \<open>catch\<close> block logs and throws the same error
  again, so a \<open>throw\<close> of a step is the result of the run.
\<close>

definition publishCarouselToInstagram ::
  "env \<Rightarrow> InstagramUser \<Rightarrow> blob list \<Rightarrow> jsstring \<Rightarrow> bool
   \<Rightarrow> (error + jsstring) \<times> event list" where
  "publishCarouselToInstagram E user slideBlobs caption sink =
     (let (imageUrls, ev1) = upload_loop E [] sink (length slideBlobs) 0 slideBlobs in
      if length imageUrls = 1 then
        (let ev2 = notify sink (js ''Creating media container...'');
             (r, ev3) = createItemContainer E (ev1 @ ev2) (user_id user) (imageUrls ! 0)
                          (accessToken user) caption False
         in case r of
              Inl e \<Rightarrow> (Inl e, ev1 @ ev2 @ ev3)
            | Inr creationId \<Rightarrow>
               (let (res, ev4) = finalize E (ev1 @ ev2 @ ev3) sink user creationId
                in (res, ev1 @ ev2 @ ev3 @ ev4)))
      else
        (let (rs, ev2) = item_loop E ev1 sink user 0 imageUrls in
         case rs of
           Inl e \<Rightarrow> (Inl e, ev1 @ ev2)
         | Inr itemContainers \<Rightarrow>
            (let ev3 = notify sink (js ''Creating carousel object...'');
                 (r, ev4) = createCarouselContainer E (ev1 @ ev2 @ ev3) (user_id user)
                              itemContainers (accessToken user) caption
             in case r of
                  Inl e \<Rightarrow> (Inl e, ev1 @ ev2 @ ev3 @ ev4)
                | Inr creationId \<Rightarrow>
                   (let (res, ev5) = finalize E (ev1 @ ev2 @ ev3 @ ev4) sink user creationId
                    in (res, ev1 @ ev2 @ ev3 @ ev4 @ ev5)))))"

subsection \<open>Reading a run\<close>

text \<open>
  The progress messages of a run in order; its events without the progress messages
  and the fetches, which leaves the calls and what they returned; whether an event is
  a fetch; and whether every fetch of a list of events came back with an id.
\<close>

fun progress_of :: "event list \<Rightarrow> jsstring list" where
  "progress_of [] = []"
| "progress_of (Progress m # es) = m # progress_of es"
| "progress_of (e # es) = progress_of es"

fun is_call_or_return :: "event \<Rightarrow> bool" where
  "is_call_or_return (Progress m) = False"
| "is_call_or_return (Fetch u r) = False"
| "is_call_or_return e = True"

definition calls_of :: "event list \<Rightarrow> event list" where
  "calls_of es = filter is_call_or_return es"

fun is_fetch :: "event \<Rightarrow> bool" where
  "is_fetch (Fetch u r) = True"
| "is_fetch e = False"

fun fetch_created :: "event \<Rightarrow> bool" where
  "fetch_created (Fetch u (Rejected m)) = False"
| "fetch_created (Fetch u (ErrorPayload m)) = False"
| "fetch_created e = True"

text \<open>
  The events of a run without the progress messages: the calls, the fetches and the
  returns, in the order they happen.
\<close>

fun is_progress :: "event \<Rightarrow> bool" where
  "is_progress (Progress m) = True"
| "is_progress e = False"

definition steps_of :: "event list \<Rightarrow> event list" where
  "steps_of es = filter (\<lambda>e. \<not> is_progress e) es"

text \<open>
  What the three lines after a \<open>fetch\<close> make of its answer: the value returned or
  thrown, and the \<open>Returned\<close> event when an id came back.
\<close>

fun fetch_outcome :: "fetch_result \<Rightarrow> error + jsstring" where
  "fetch_outcome (Rejected m) = Inl (TransportError m)"
| "fetch_outcome (ErrorPayload m) = Inl (Error m)"
| "fetch_outcome (Created i) = Inr i"

fun returned_of :: "fetch_result \<Rightarrow> event list" where
  "returned_of (Created i) = [Returned i]"
| "returned_of fr = []"

text \<open>
  The four requests of the Graph API, written out: a carousel item for an encoded image
  URL, a single image for an encoded image URL and an encoded caption, a carousel for
  the children ids and an encoded caption, and the publication of a creation id.
\<close>

definition carousel_item_url :: "jsstring \<Rightarrow> jsstring \<Rightarrow> jsstring \<Rightarrow> jsstring" where
  "carousel_item_url uid eu tok =
     js ''https://graph.facebook.com/v19.0/'' @ uid @ js ''/media?image_url='' @ eu
     @ js ''&access_token='' @ tok @ js ''&is_carousel_item=true''"

definition single_image_url ::
  "jsstring \<Rightarrow> jsstring \<Rightarrow> jsstring \<Rightarrow> jsstring \<Rightarrow> jsstring" where
  "single_image_url uid eu tok ec =
     js ''https://graph.facebook.com/v19.0/'' @ uid @ js ''/media?image_url='' @ eu
     @ js ''&access_token='' @ tok @ js ''&caption='' @ ec"

definition carousel_url ::
  "jsstring \<Rightarrow> jsstring list \<Rightarrow> jsstring \<Rightarrow> jsstring \<Rightarrow> jsstring" where
  "carousel_url uid ids ec tok =
     js ''https://graph.facebook.com/v19.0/'' @ uid
     @ js ''/media?media_type=CAROUSEL&children='' @ join (js '','') ids
     @ js ''&caption='' @ ec @ js ''&access_token='' @ tok"

definition publish_url :: "jsstring \<Rightarrow> jsstring \<Rightarrow> jsstring \<Rightarrow> jsstring" where
  "publish_url uid cid tok =
     js ''https://graph.facebook.com/v19.0/'' @ uid @ js ''/media_publish?creation_id='' @ cid
     @ js ''&access_token='' @ tok"

text \<open>The calls and returns of the uploads of \<open>bs\<close> that returned \<open>urls\<close>.\<close>

fun upload_calls :: "blob list \<Rightarrow> jsstring list \<Rightarrow> event list" where
  "upload_calls (b # bs) (u # us) = UploadCall b # UploadReturn u # upload_calls bs us"
| "upload_calls bs us = []"

text \<open>
  The calls and returns of the carousel items made for \<open>urls\<close> that returned \<open>ids\<close>:
  each call has an empty caption and the carousel-item flag.
\<close>

fun item_calls :: "InstagramUser \<Rightarrow> jsstring list \<Rightarrow> jsstring list \<Rightarrow> event list" where
  "item_calls user (u # us) (c # cs) =
     ItemCall (user_id user) u (accessToken user) [] True # Returned c # item_calls user us cs"
| "item_calls user us cs = []"

text \<open>
  The calls, requests and returns of the carousel items made on a real account for
  \<open>urls\<close>, whose encodings are \<open>eus\<close>, that returned \<open>ids\<close>.
\<close>

fun item_steps ::
  "InstagramUser \<Rightarrow> jsstring list \<Rightarrow> jsstring list \<Rightarrow> jsstring list \<Rightarrow> event list" where
  "item_steps user (u # us) (eu # eus) (c # cs) =
     ItemCall (user_id user) u (accessToken user) [] True
     # Fetch (carousel_item_url (user_id user) eu (accessToken user)) (Created c)
     # Returned c # item_steps user us eus cs"
| "item_steps user us eus cs = []"

subsection \<open>An environment to run the workflow in\<close>

text \<open>
  For the concrete runs below: \<open>encodeURIComponent\<close> leaves its argument as it is,
  the clock is fixed, the random number counts the events so far, and the remote answers every request
  with an id that counts the events so far, but answers with an error payload once
  \<open>k\<close> or more events have happened.
\<close>

definition test_env :: "nat \<Rightarrow> env" where
  "test_env k =
     \<lparr>encodeURIComponent = Some,
      math_random = (\<lambda>h. js ''0.'' @ num_str (length h)),
      date_now = (\<lambda>h. js ''1700000000000''),
      remote = (\<lambda>h url. if k \<le> length h then ErrorPayload (js ''Invalid image'')
                          else Created (js ''id'' @ num_str (length h)))\<rparr>"

definition demo_user :: InstagramUser where
  "demo_user = \<lparr>user_id = MOCK_USER_ID, name = js ''Demo User'',
                username = js ''demo_creator'', profile_picture_url = None,
                accessToken = js ''mock_token_123''\<rparr>"

definition real_user :: InstagramUser where
  "real_user = \<lparr>user_id = js ''17841400000000000'', name = js ''Page'',
                username = js ''page'', profile_picture_url = None,
                accessToken = js ''EAAB''\<rparr>"

subsection \<open>Shapes of a call and of a run\<close>

text \<open>
  What a call of one of the three Graph API functions can add to the run, where \<open>c\<close>
  is the event of the call itself: the call alone when \<open>encodeURIComponent\<close> threw;
  on the sentinel account the call and the id made up; on any other account the call,
  one fetch, and the returned id when the fetch came back with one.
\<close>

definition call_shape :: "event \<Rightarrow> jsstring \<Rightarrow> (error + jsstring) \<Rightarrow> event list \<Rightarrow> bool" where
  "call_shape c uid r ev \<longleftrightarrow>
     (r = Inl URIError \<and> ev = [c])
   \<or> (uid = MOCK_USER_ID \<and> (\<exists>i. r = Inr i \<and> ev = [c, Returned i]))
   \<or> (uid \<noteq> MOCK_USER_ID \<and>
       (\<exists>u. (\<exists>m. r = Inl (TransportError m) \<and> ev = [c, Fetch u (Rejected m)])
          \<or> (\<exists>m. r = Inl (Error m) \<and> ev = [c, Fetch u (ErrorPayload m)])
          \<or> (\<exists>i. r = Inr i \<and> ev = [c, Fetch u (Created i), Returned i])))"

text \<open>
  A list of events halts on an error payload when the first fetch in it that came back
  with an error payload is its last event and the result is the \<open>Error\<close> with that
  message.
\<close>

fun halts_on_error :: "event list \<Rightarrow> (error + 'a) \<Rightarrow> bool" where
  "halts_on_error [] r = True"
| "halts_on_error (Fetch u (ErrorPayload m) # es) r = (es = [] \<and> r = Inl (Error m))"
| "halts_on_error (e # es) r = halts_on_error es r"

text \<open>The message of the error payload that the \<open>k\<close>-th event of a run received, if any.\<close>

definition error_payload_at :: "event list \<Rightarrow> nat \<Rightarrow> jsstring option" where
  "error_payload_at ev k =
     (if k < length ev then
        (case ev ! k of Fetch u (ErrorPayload m) \<Rightarrow> Some m | _ \<Rightarrow> None)
      else None)"

text \<open>
  Whether the two calls of \<open>encodeURIComponent\<close> in \<open>createItemContainer\<close> go through:
  the one on the image URL, and the one on the caption when the container is not a
  carousel item.
\<close>

definition item_encodes :: "env \<Rightarrow> jsstring \<Rightarrow> jsstring \<Rightarrow> bool \<Rightarrow> bool" where
  "item_encodes E url cap isC \<longleftrightarrow>
     encodeURIComponent E url \<noteq> None \<and> (isC \<or> encodeURIComponent E cap \<noteq> None)"

text \<open>
  No fetch of the events failed: the account is the sentinel one, which makes none, or
  every fetch came back with an id.
\<close>

definition fetches_ok :: "InstagramUser \<Rightarrow> event list \<Rightarrow> bool" where
  "fetches_ok user ev \<longleftrightarrow> user_id user = MOCK_USER_ID \<or> list_all fetch_created ev"

text \<open>
  Step 2 of \<open>publishCarouselToInstagram\<close> on its own, from the events of step 1: the
  same text as in the function, there followed by step 3.
\<close>

definition create_containers ::
  "env \<Rightarrow> event list \<Rightarrow> bool \<Rightarrow> InstagramUser \<Rightarrow> jsstring list \<Rightarrow> jsstring
   \<Rightarrow> (error + jsstring) \<times> event list" where
  "create_containers E h sink user imageUrls caption =
     (if length imageUrls = 1 then
        (let ev2 = notify sink (js ''Creating media container...'');
             (r, ev3) = createItemContainer E (h @ ev2) (user_id user) (imageUrls ! 0)
                          (accessToken user) caption False
         in (r, ev2 @ ev3))
      else
        (let (rs, ev2) = item_loop E h sink user 0 imageUrls in
         case rs of
           Inl e \<Rightarrow> (Inl e, ev2)
         | Inr itemContainers \<Rightarrow>
            (let ev3 = notify sink (js ''Creating carousel object...'');
                 (r, ev4) = createCarouselContainer E (h @ ev2 @ ev3) (user_id user)
                              itemContainers (accessToken user) caption
             in (r, ev2 @ ev3 @ ev4))))"

section \<open>Facts about the string operations\<close>

lemma startsWith_iff: "startsWith s p \<longleftrightarrow> (\<exists>post. s = p @ post)"
proof
  assume "startsWith s p"
  then have "s = p @ drop (length p) s"
    by (metis startsWith_def append_take_drop_id)
  then show "\<exists>post. s = p @ post" ..
next
  assume "\<exists>post. s = p @ post"
  then show "startsWith s p" by (auto simp: startsWith_def)
qed

lemma includes_str_iff: "includes_str s p \<longleftrightarrow> (\<exists>pre post. s = pre @ p @ post)"
proof (induction s)
  case Nil
  show ?case by (auto simp: startsWith_def)
next
  case (Cons c cs)
  have "(\<exists>pre post. c # cs = pre @ p @ post) \<longleftrightarrow>
        (\<exists>post. c # cs = p @ post) \<or> (\<exists>pre post. cs = pre @ p @ post)"
  proof
    assume "\<exists>pre post. c # cs = pre @ p @ post"
    then obtain pre post where e: "c # cs = pre @ p @ post" by blast
    show "(\<exists>post. c # cs = p @ post) \<or> (\<exists>pre post. cs = pre @ p @ post)"
    proof (cases pre)
      case Nil
      with e show ?thesis by auto
    next
      case (Cons a pre')
      with e have "cs = pre' @ p @ post" by simp
      then show ?thesis by blast
    qed
  next
    assume "(\<exists>post. c # cs = p @ post) \<or> (\<exists>pre post. cs = pre @ p @ post)"
    then show "\<exists>pre post. c # cs = pre @ p @ post"
    proof
      assume "\<exists>post. c # cs = p @ post"
      then obtain post where "c # cs = [] @ p @ post" by auto
      then show ?thesis by blast
    next
      assume "\<exists>pre post. cs = pre @ p @ post"
      then obtain pre post where "c # cs = (c # pre) @ p @ post" by auto
      then show ?thesis by blast
    qed
  qed
  with Cons show ?case by (simp add: startsWith_iff)
qed

lemma endsWith_iff: "endsWith s p \<longleftrightarrow> (\<exists>pre. s = pre @ p)"
proof
  assume a: "endsWith s p"
  then have "s = take (length s - length p) s @ p"
    by (metis endsWith_def append_take_drop_id)
  then show "\<exists>pre. s = pre @ p" ..
next
  assume "\<exists>pre. s = pre @ p"
  then show "endsWith s p" by (auto simp: endsWith_def)
qed

lemma startsWith_includes: "startsWith s p \<Longrightarrow> includes_str s p"
  unfolding startsWith_iff includes_str_iff by (metis append_Nil)

lemma endsWith_includes: "endsWith s p \<Longrightarrow> includes_str s p"
  unfolding endsWith_iff includes_str_iff by (metis append_Nil2)

lemma includes_str_trans:
  "includes_str s l \<Longrightarrow> includes_str l p \<Longrightarrow> includes_str s p"
  unfolding includes_str_iff by (metis append.assoc)

lemma includes_str_drop: "includes_str (drop n s) p \<Longrightarrow> includes_str s p"
proof -
  assume "includes_str (drop n s) p"
  then obtain pre post where "drop n s = pre @ p @ post"
    unfolding includes_str_iff by blast
  then have "s = (take n s @ pre) @ p @ post"
    by (metis append_take_drop_id append.assoc)
  then show ?thesis unfolding includes_str_iff by blast
qed

section \<open>Facts about the markup scanner\<close>

lemma lazy_dots_sound:
  "lazy_dots cls s = Some (body, rest) \<Longrightarrow> s = body @ cls @ rest"
proof (induction s arbitrary: body)
  case Nil
  then show ?case by (simp add: startsWith_def split: if_splits)
next
  case (Cons c cs)
  show ?case
  proof (cases "startsWith (c # cs) cls")
    case True
    with Cons.prems have b: "body = []" and r: "rest = drop (length cls) (c # cs)"
      by simp_all
    from True have "c # cs = cls @ drop (length cls) (c # cs)"
      by (metis startsWith_def append_take_drop_id)
    with b r show ?thesis by simp
  next
    case False
    with Cons.prems obtain b where l: "lazy_dots cls cs = Some (b, rest)"
      and b: "body = c # b"
      by (auto split: if_splits option.splits)
    from Cons.IH [OF l] b show ?thesis by simp
  qed
qed

lemma lazy_dots_none:
  "\<not> includes_str s cls \<Longrightarrow> lazy_dots cls s = None"
  by (induction s) auto

lemma exec_tag_sound:
  "exec_tag opn cls s = Some (m, rest) \<Longrightarrow> s = m @ rest"
proof -
  assume a: "exec_tag opn cls s = Some (m, rest)"
  then have sw: "startsWith s opn"
    by (simp add: exec_tag_def split: if_splits)
  with a obtain body where
    ld: "lazy_dots cls (drop (length opn) s) = Some (body, rest)"
    and m: "m = opn @ body @ cls"
    by (auto simp: exec_tag_def split: option.splits)
  from sw have "s = opn @ drop (length opn) s"
    by (metis startsWith_def append_take_drop_id)
  with lazy_dots_sound [OF ld] m show ?thesis by simp
qed

lemma regex_exec_at_sound:
  "regex_exec_at s = Some (m, rest) \<Longrightarrow> s = m @ rest"
  unfolding regex_exec_at_def
  by (auto split: option.splits dest: exec_tag_sound)

lemma exec_tag_no_open: "\<not> startsWith s opn \<Longrightarrow> exec_tag opn cls s = None"
  by (simp add: exec_tag_def)

lemma exec_tag_no_close: "\<not> includes_str s cls \<Longrightarrow> exec_tag opn cls s = None"
proof -
  assume "\<not> includes_str s cls"
  then have "\<not> includes_str (drop (length opn) s) cls"
    using includes_str_drop by blast
  then show ?thesis by (simp add: exec_tag_def lazy_dots_none)
qed

lemma concat_split_regex: "concat (split_regex acc s) = acc @ s"
proof (induction acc s rule: split_regex.induct)
  case (1 acc)
  show ?case by simp
next
  case (2 acc c cs)
  show ?case
  proof (cases "regex_exec_at (c # cs)")
    case None
    with 2 show ?thesis by simp
  next
    case (Some r)
    obtain m rest where r: "r = (m, rest)" by (cases r)
    with Some 2 have ih: "concat (split_regex [] rest) = rest" by simp
    from Some r have e: "c # cs = m @ rest"
      by (simp add: regex_exec_at_sound)
    from Some r have "split_regex acc (c # cs) = acc # m # split_regex [] rest"
      by simp
    with ih e show ?thesis by simp
  qed
qed

lemma split_regex_no_open:
  "\<not> includes_str s tag_b \<Longrightarrow> \<not> includes_str s tag_mark \<Longrightarrow> split_regex acc s = [acc @ s]"
proof (induction s arbitrary: acc)
  case Nil
  show ?case by simp
next
  case (Cons c cs)
  then have "regex_exec_at (c # cs) = None"
    by (simp add: regex_exec_at_def exec_tag_no_open)
  with Cons show ?case by simp
qed

lemma split_regex_no_close:
  "\<not> includes_str s tag_b_end \<Longrightarrow> \<not> includes_str s tag_mark_end \<Longrightarrow>
   split_regex acc s = [acc @ s]"
proof (induction s arbitrary: acc)
  case Nil
  show ?case by simp
next
  case (Cons c cs)
  then have "regex_exec_at (c # cs) = None"
    by (simp add: regex_exec_at_def exec_tag_no_close)
  moreover from Cons.prems have "\<not> includes_str cs tag_b_end" "\<not> includes_str cs tag_mark_end"
    by simp_all
  ultimately show ?case using Cons.IH by simp
qed

lemma render_part_no_open:
  "\<not> includes_str p tag_b \<Longrightarrow> \<not> includes_str p tag_mark \<Longrightarrow> render_part p = PlainText p"
  using startsWith_includes by (auto simp: render_part_def)

lemma render_part_no_close:
  "\<not> includes_str p tag_b_end \<Longrightarrow> \<not> includes_str p tag_mark_end \<Longrightarrow>
   render_part p = PlainText p"
  using endsWith_includes by (auto simp: render_part_def)

lemma render_line_no_open:
  "\<not> includes_str line tag_b \<Longrightarrow> \<not> includes_str line tag_mark \<Longrightarrow>
   render_line line = [PlainText line]"
  by (simp add: render_line_def split_regex_no_open render_part_no_open)

lemma render_line_no_close:
  "\<not> includes_str line tag_b_end \<Longrightarrow> \<not> includes_str line tag_mark_end \<Longrightarrow>
   render_line line = [PlainText line]"
  by (simp add: render_line_def split_regex_no_close render_part_no_close)


lemma split_nl_includes:
  "l \<in> set (split_nl acc s) \<Longrightarrow> includes_str (acc @ s) l"
proof (induction s arbitrary: acc)
  case Nil
  then have "acc @ [] = [] @ l @ []" by simp
  then show ?case unfolding includes_str_iff by blast
next
  case (Cons c cs)
  show ?case
  proof (cases "c = 10")
    case True
    with Cons.prems have "l = acc \<or> l \<in> set (split_nl [] cs)" by simp
    then show ?thesis
    proof
      assume "l = acc"
      then have "acc @ c # cs = [] @ l @ (c # cs)" by simp
      then show ?thesis unfolding includes_str_iff by blast
    next
      assume "l \<in> set (split_nl [] cs)"
      from Cons.IH [OF this] obtain pre post where "cs = pre @ l @ post"
        unfolding includes_str_iff by auto
      then have "acc @ c # cs = (acc @ c # pre) @ l @ post" by simp
      then show ?thesis unfolding includes_str_iff by blast
    qed
  next
    case False
    with Cons.prems have "l \<in> set (split_nl (acc @ [c]) cs)" by simp
    from Cons.IH [OF this] show ?thesis by simp
  qed
qed

lemma split_nl_not_Nil: "split_nl acc s \<noteq> []"
  by (induction s arbitrary: acc) auto



lemma tagged_b_part:
  assumes "startsWith p tag_b" and "endsWith p tag_b_end"
  shows "p = tag_b @ slice p 3 4 @ tag_b_end"
proof -
  from assms(1) obtain post where p: "p = [60, 98, 62] @ post"
    unfolding startsWith_iff tag_b_def js_def by auto
  from assms(2) obtain pre where q: "p = pre @ [60, 47, 98, 62]"
    unfolding endsWith_iff tag_b_end_def js_def by auto
  from p q have "\<exists>mid. post = mid @ [60, 47, 98, 62]"
    by (cases pre; cases "tl pre"; cases "tl (tl pre)") auto
  then obtain mid where "post = mid @ [60, 47, 98, 62]" ..
  with p have "p = [60, 98, 62] @ mid @ [60, 47, 98, 62]" by simp
  then show ?thesis by (simp add: slice_def tag_b_def tag_b_end_def js_def)
qed

lemma tagged_mark_part:
  assumes "startsWith p tag_mark" and "endsWith p tag_mark_end"
  shows "p = tag_mark @ slice p 6 7 @ tag_mark_end"
proof -
  from assms(1) obtain post where p: "p = [60, 109, 97, 114, 107, 62] @ post"
    unfolding startsWith_iff tag_mark_def js_def by auto
  from assms(2) obtain pre where q: "p = pre @ [60, 47, 109, 97, 114, 107, 62]"
    unfolding endsWith_iff tag_mark_end_def js_def by auto
  from p q have "\<exists>mid. post = mid @ [60, 47, 109, 97, 114, 107, 62]"
    by (cases pre; cases "tl pre"; cases "tl (tl pre)"; cases "tl (tl (tl pre))";
        cases "tl (tl (tl (tl pre)))"; cases "tl (tl (tl (tl (tl pre))))") auto
  then obtain mid where "post = mid @ [60, 47, 109, 97, 114, 107, 62]" ..
  with p have "p = [60, 109, 97, 114, 107, 62] @ mid @ [60, 47, 109, 97, 114, 107, 62]"
    by simp
  then show ?thesis by (simp add: slice_def tag_mark_def tag_mark_end_def js_def)
qed

lemma output_lines_render:
  "text \<noteq> [] \<Longrightarrow> output_lines (renderFormattedText text) = map render_line (split_nl [] text)"
proof -
  assume ne: "text \<noteq> []"
  have "(segments \<circ> (\<lambda>(i, line). \<lparr>segments = render_line line, br = (i < n)\<rparr>))
        = render_line \<circ> snd" for n :: nat
    by (rule ext) (simp add: case_prod_beta)
  then have "map (segments \<circ> (\<lambda>(i, line). \<lparr>segments = render_line line, br = (i < n)\<rparr>))
               (enumerate 0 xs) = map render_line xs" for n :: nat and xs
    by (simp flip: map_map)
  with ne show ?thesis
    by (simp add: output_lines_def renderFormattedText_def Let_def)
qed

lemma segment_source_render_part: "segment_source (render_part p) = p"
  using tagged_b_part [of p] tagged_mark_part [of p]
  by (auto simp: render_part_def)

lemma concat_source_render_line:
  "concat (map segment_source (render_line l)) = l"
proof -
  have "map segment_source (map render_part ps) = ps" for ps
    by (induction ps) (simp_all add: segment_source_render_part)
  then show ?thesis by (simp add: render_line_def concat_split_regex)
qed








section \<open>Facts about the workflow\<close>

lemma fetch_post_shape:
  "fetch_post E h u = (r, ev) \<Longrightarrow>
     (\<exists>m. r = Inl (TransportError m) \<and> ev = [Fetch u (Rejected m)])
   \<or> (\<exists>m. r = Inl (Error m) \<and> ev = [Fetch u (ErrorPayload m)])
   \<or> (\<exists>i. r = Inr i \<and> ev = [Fetch u (Created i), Returned i])"
  by (auto simp: fetch_post_def split: fetch_result.splits)

lemma call_shape_fetch:
  "uid \<noteq> MOCK_USER_ID \<Longrightarrow> fetch_post E h u = (r, ev) \<Longrightarrow> call_shape c uid r (c # ev)"
  using fetch_post_shape [of E h u r ev] unfolding call_shape_def by auto

lemma createItemContainer_shape:
  assumes "createItemContainer E h uid url tok cap isC = (r, ev)"
  shows "call_shape (ItemCall uid url tok cap isC) uid r ev"
proof (cases "uid = MOCK_USER_ID")
  case True
  with assms show ?thesis
    by (auto simp: createItemContainer_def call_shape_def Let_def
        split: option.splits if_splits)
next
  case False
  with assms show ?thesis
    by (auto simp: createItemContainer_def Let_def
        split: option.splits if_splits prod.splits
        intro: call_shape_fetch)
       (auto simp: call_shape_def)
qed

lemma createCarouselContainer_shape:
  assumes "createCarouselContainer E h uid ids tok cap = (r, ev)"
  shows "call_shape (CarouselCall uid ids tok cap) uid r ev"
proof (cases "uid = MOCK_USER_ID")
  case True
  with assms show ?thesis
    by (auto simp: createCarouselContainer_def call_shape_def Let_def
        split: option.splits if_splits)
next
  case False
  with assms show ?thesis
    by (auto simp: createCarouselContainer_def Let_def
        split: option.splits if_splits prod.splits
        intro: call_shape_fetch)
       (auto simp: call_shape_def)
qed

lemma publishMedia_shape:
  assumes "publishMedia E h uid cid tok = (r, ev)"
  shows "call_shape (PublishCall uid cid tok) uid r ev"
proof (cases "uid = MOCK_USER_ID")
  case True
  with assms show ?thesis
    by (auto simp: publishMedia_def call_shape_def Let_def)
next
  case False
  with assms show ?thesis
    by (auto simp: publishMedia_def Let_def split: prod.splits intro: call_shape_fetch)
qed

lemma halts_on_error_skip:
  "fetch_created e \<Longrightarrow> halts_on_error (e # es) r = halts_on_error es r"
  by (cases "(e # es, r)" rule: halts_on_error.cases) auto

lemma halts_on_error_append:
  "list_all fetch_created a \<Longrightarrow> halts_on_error (a @ b) r = halts_on_error b r"
  by (induction a) (simp_all add: halts_on_error_skip)

lemma halts_on_error_created:
  "list_all fetch_created a \<Longrightarrow> halts_on_error a r"
  using halts_on_error_append [of a "[]" r] by simp

lemma halts_on_error_result:
  "halts_on_error ev (Inl e :: error + 'a) \<Longrightarrow> halts_on_error ev (Inl e :: error + 'b)"
  by (induction ev "Inl e :: error + 'a" rule: halts_on_error.induct) auto

lemma halts_on_error_split:
  "halts_on_error ev r \<Longrightarrow> ev = pre @ Fetch u (ErrorPayload m) # post \<Longrightarrow>
   post = [] \<and> r = Inl (Error m)"
proof (induction pre arbitrary: ev)
  case Nil
  then show ?case by simp
next
  case (Cons e pre)
  then have h: "halts_on_error (e # pre @ Fetch u (ErrorPayload m) # post) r" by simp
  have "halts_on_error (pre @ Fetch u (ErrorPayload m) # post) r"
  proof (cases "fetch_created e")
    case True
    with h show ?thesis by (simp add: halts_on_error_skip)
  next
    case False
    then obtain u' m' where "e = Fetch u' (Rejected m') \<or> e = Fetch u' (ErrorPayload m')"
      by (cases e rule: fetch_created.cases) auto
    with h show ?thesis by auto
  qed
  from Cons.IH [OF this] show ?case by simp
qed

lemma notify_created: "list_all fetch_created (notify sink msg)"
  by (simp add: notify_def)

lemma call_shape_halts:
  "call_shape c uid r ev \<Longrightarrow> is_call_or_return c \<Longrightarrow> halts_on_error ev r"
  by (cases c) (auto simp: call_shape_def)

lemma call_shape_created:
  "call_shape c uid (Inr i) ev \<Longrightarrow> is_call_or_return c \<Longrightarrow> list_all fetch_created ev"
  by (cases c) (auto simp: call_shape_def)

lemma upload_created:
  "uploadImageToPublicServer E h b = (url, ev) \<Longrightarrow> list_all fetch_created ev"
  by (auto simp: uploadImageToPublicServer_def Let_def)

lemma upload_loop_created:
  "upload_loop E h sink n i bs = (urls, ev) \<Longrightarrow> list_all fetch_created ev"
proof (induction bs arbitrary: h i urls ev)
  case Nil
  then show ?case by simp
next
  case (Cons b bs)
  then show ?case
    by (auto simp: Let_def notify_created split: prod.splits dest: upload_created)
qed

lemma item_loop_Cons:
  assumes "createItemContainer E (h @ notify sink (preparing_msg i)) (user_id user) url (accessToken user) [] True
           = (r2, ev2)"
    and "item_loop E (h @ notify sink (preparing_msg i) @ ev2) sink user (i + 1) urls = (rs, ev3)"
  shows "item_loop E h sink user i (url # urls) =
     (case r2 of
        Inl e \<Rightarrow> (Inl e, notify sink (preparing_msg i) @ ev2)
      | Inr c \<Rightarrow>
         (case rs of
            Inl e \<Rightarrow> (Inl e, notify sink (preparing_msg i) @ ev2 @ ev3)
          | Inr cs \<Rightarrow> (Inr (c # cs), notify sink (preparing_msg i) @ ev2 @ ev3)))"
  using assms by (cases r2; cases rs) (simp_all add: Let_def)

lemma item_loop_halts:
  "item_loop E h sink user i urls = (r, ev) \<Longrightarrow>
   halts_on_error ev r \<and> (\<forall>ids. r = Inr ids \<longrightarrow> list_all fetch_created ev)"
proof (induction urls arbitrary: h i r ev)
  case Nil
  then show ?case by auto
next
  case (Cons url urls)
  let ?ev1 = "notify sink (preparing_msg i)"
  obtain r2 ev2 where it: "createItemContainer E (h @ ?ev1) (user_id user) url
      (accessToken user) [] True = (r2, ev2)"
    by (cases "createItemContainer E (h @ ?ev1) (user_id user) url (accessToken user) [] True")
  obtain rs ev3 where lp: "item_loop E (h @ ?ev1 @ ev2) sink user (i + 1) urls = (rs, ev3)"
    by (cases "item_loop E (h @ ?ev1 @ ev2) sink user (i + 1) urls")
  note sh = createItemContainer_shape [OF it]
  note eq = Cons.prems [unfolded item_loop_Cons [OF it lp]]
  from Cons.IH [OF lp] have ih: "halts_on_error ev3 rs"
    and ih2: "\<forall>ids. rs = Inr ids \<longrightarrow> list_all fetch_created ev3" by simp_all
  show ?case
  proof (cases r2)
    case (Inl e)
    with eq have r: "r = Inl e" and ev: "ev = ?ev1 @ ev2" by simp_all
    from sh Inl have "halts_on_error ev2 (Inl e :: error + jsstring)"
      by (simp add: call_shape_halts)
    then have "halts_on_error ev2 (Inl e :: error + jsstring list)"
      by (rule halts_on_error_result)
    with r ev show ?thesis by (simp add: halts_on_error_append notify_created)
  next
    case (Inr c)
    with sh have c2: "list_all fetch_created ev2"
      by (simp add: call_shape_created)
    show ?thesis
    proof (cases rs)
      case (Inl e)
      with Inr eq have r: "r = Inl e" and ev: "ev = ?ev1 @ ev2 @ ev3" by simp_all
      from ih Inl have "halts_on_error ev3 (Inl e :: error + jsstring list)" by simp
      with ev c2 r show ?thesis
        by (simp add: halts_on_error_append notify_created)
    next
      case (Inr cs)
      with \<open>r2 = Inr c\<close> eq have ev: "ev = ?ev1 @ ev2 @ ev3" by simp
      from Inr ih2 have "list_all fetch_created ev3" by simp
      with ev c2 show ?thesis
        by (simp add: halts_on_error_created notify_created)
    qed
  qed
qed

lemma finalize_parts:
  assumes "finalize E h sink user cid = (r, ev)"
  obtains ev2 where
    "publishMedia E (h @ notify sink (js ''Finalizing publication...'')) (user_id user) cid
       (accessToken user) = (r, ev2)"
    "ev = notify sink (js ''Finalizing publication...'') @ ev2"
  using assms by (auto simp: finalize_def Let_def split: prod.splits)

lemma publish_cases [consumes 1, case_names single_fail single_ok items_fail root_fail root_ok]:
  assumes run: "publishCarouselToInstagram E user bs cap sink = (r, ev)"
  obtains
    (single_fail) urls ev1 e ev3 where
      "upload_loop E [] sink (length bs) 0 bs = (urls, ev1)" "length urls = 1"
      "createItemContainer E (ev1 @ notify sink (js ''Creating media container...''))
         (user_id user) (urls ! 0) (accessToken user) cap False = (Inl e, ev3)"
      "r = Inl e" "ev = ev1 @ notify sink (js ''Creating media container...'') @ ev3"
  | (single_ok) urls ev1 cid ev3 ev4 where
      "upload_loop E [] sink (length bs) 0 bs = (urls, ev1)" "length urls = 1"
      "createItemContainer E (ev1 @ notify sink (js ''Creating media container...''))
         (user_id user) (urls ! 0) (accessToken user) cap False = (Inr cid, ev3)"
      "finalize E (ev1 @ notify sink (js ''Creating media container...'') @ ev3) sink user cid
         = (r, ev4)"
      "ev = ev1 @ notify sink (js ''Creating media container...'') @ ev3 @ ev4"
  | (items_fail) urls ev1 e ev2 where
      "upload_loop E [] sink (length bs) 0 bs = (urls, ev1)" "length urls \<noteq> 1"
      "item_loop E ev1 sink user 0 urls = (Inl e, ev2)"
      "r = Inl e" "ev = ev1 @ ev2"
  | (root_fail) urls ev1 ids ev2 e ev4 where
      "upload_loop E [] sink (length bs) 0 bs = (urls, ev1)" "length urls \<noteq> 1"
      "item_loop E ev1 sink user 0 urls = (Inr ids, ev2)"
      "createCarouselContainer E (ev1 @ ev2 @ notify sink (js ''Creating carousel object...''))
         (user_id user) ids (accessToken user) cap = (Inl e, ev4)"
      "r = Inl e" "ev = ev1 @ ev2 @ notify sink (js ''Creating carousel object...'') @ ev4"
  | (root_ok) urls ev1 ids ev2 cid ev4 ev5 where
      "upload_loop E [] sink (length bs) 0 bs = (urls, ev1)" "length urls \<noteq> 1"
      "item_loop E ev1 sink user 0 urls = (Inr ids, ev2)"
      "createCarouselContainer E (ev1 @ ev2 @ notify sink (js ''Creating carousel object...''))
         (user_id user) ids (accessToken user) cap = (Inr cid, ev4)"
      "finalize E (ev1 @ ev2 @ notify sink (js ''Creating carousel object...'') @ ev4) sink
         user cid = (r, ev5)"
      "ev = ev1 @ ev2 @ notify sink (js ''Creating carousel object...'') @ ev4 @ ev5"
proof -
  obtain urls ev1 where up: "upload_loop E [] sink (length bs) 0 bs = (urls, ev1)"
    by (cases "upload_loop E [] sink (length bs) 0 bs")
  show thesis
  proof (cases "length urls = 1")
    case True
    let ?ev2 = "notify sink (js ''Creating media container...'')"
    obtain r3 ev3 where it: "createItemContainer E (ev1 @ ?ev2)
         (user_id user) (urls ! 0) (accessToken user) cap False = (r3, ev3)"
      by (cases "createItemContainer E (ev1 @ ?ev2)
         (user_id user) (urls ! 0) (accessToken user) cap False")
    show thesis
    proof (cases r3)
      case (Inl e)
      with run up True it have "r = Inl e" "ev = ev1 @ ?ev2 @ ev3"
        by (simp_all add: publishCarouselToInstagram_def Let_def)
      with up True it Inl show thesis by (intro single_fail) auto
    next
      case (Inr cid)
      obtain res ev4 where fin: "finalize E (ev1 @ ?ev2 @ ev3) sink user cid = (res, ev4)"
        by (cases "finalize E (ev1 @ ?ev2 @ ev3) sink user cid")
      with run up True it Inr have "r = res" "ev = ev1 @ ?ev2 @ ev3 @ ev4"
        by (simp_all add: publishCarouselToInstagram_def Let_def)
      with up True it Inr fin show thesis by (intro single_ok) auto
    qed
  next
    case False
    let ?ev3 = "notify sink (js ''Creating carousel object...'')"
    obtain rs ev2 where lp: "item_loop E ev1 sink user 0 urls = (rs, ev2)"
      by (cases "item_loop E ev1 sink user 0 urls")
    show thesis
    proof (cases rs)
      case (Inl e)
      with run up False lp have "r = Inl e" "ev = ev1 @ ev2"
        by (simp_all add: publishCarouselToInstagram_def Let_def)
      with up False lp Inl show thesis by (intro items_fail) auto
    next
      case (Inr ids)
      note ids = Inr
      obtain r4 ev4 where cc: "createCarouselContainer E (ev1 @ ev2 @ ?ev3)
         (user_id user) ids (accessToken user) cap = (r4, ev4)"
        by (cases "createCarouselContainer E (ev1 @ ev2 @ ?ev3)
         (user_id user) ids (accessToken user) cap")
      show thesis
      proof (cases r4)
        case (Inl e)
        with run up False lp ids cc have "r = Inl e" "ev = ev1 @ ev2 @ ?ev3 @ ev4"
          by (simp_all add: publishCarouselToInstagram_def Let_def)
        with up False lp ids cc Inl show thesis by (intro root_fail) auto
      next
        case (Inr cid)
        obtain res ev5 where fin:
          "finalize E (ev1 @ ev2 @ ?ev3 @ ev4) sink user cid = (res, ev5)"
          by (cases "finalize E (ev1 @ ev2 @ ?ev3 @ ev4) sink user cid")
        with run up False lp ids cc Inr have "r = res" "ev = ev1 @ ev2 @ ?ev3 @ ev4 @ ev5"
          by (simp_all add: publishCarouselToInstagram_def Let_def)
        with up False lp ids cc Inr fin show thesis by (intro root_ok) auto
      qed
    qed
  qed
qed

lemma error_payload_at_split:
  assumes "error_payload_at ev k = Some m"
  obtains u where "ev = take k ev @ Fetch u (ErrorPayload m) # drop (Suc k) ev" "k < length ev"
proof -
  from assms have k: "k < length ev"
    by (simp add: error_payload_at_def split: if_splits)
  with assms obtain u where "ev ! k = Fetch u (ErrorPayload m)"
    by (auto simp: error_payload_at_def split: event.splits fetch_result.splits)
  with k have "ev = take k ev @ Fetch u (ErrorPayload m) # drop (Suc k) ev"
    by (metis id_take_nth_drop)
  with k that show thesis by blast
qed

lemma finalize_halts:
  assumes "finalize E h sink user cid = (r, ev)"
  shows "halts_on_error ev r"
proof -
  from assms obtain ev2 where
    p: "publishMedia E (h @ notify sink (js ''Finalizing publication...'')) (user_id user) cid
       (accessToken user) = (r, ev2)"
    and ev: "ev = notify sink (js ''Finalizing publication...'') @ ev2"
    by (rule finalize_parts)
  from publishMedia_shape [OF p] have "halts_on_error ev2 r"
    by (simp add: call_shape_halts)
  with ev show ?thesis by (simp add: halts_on_error_append notify_created)
qed

lemma publish_halts:
  assumes "publishCarouselToInstagram E user bs cap sink = (r, ev)"
  shows "halts_on_error ev r"
  using assms
proof (cases rule: publish_cases)
  case (single_fail urls ev1 e ev3)
  from createItemContainer_shape [OF single_fail(3)] single_fail(4)
  have "halts_on_error ev3 r" by (simp add: call_shape_halts)
  with single_fail(5) upload_loop_created [OF single_fail(1)] show ?thesis
    by (simp add: halts_on_error_append notify_created)
next
  case (single_ok urls ev1 cid ev3 ev4)
  from createItemContainer_shape [OF single_ok(3)]
  have "list_all fetch_created ev3" by (simp add: call_shape_created)
  with single_ok(5) upload_loop_created [OF single_ok(1)] finalize_halts [OF single_ok(4)]
  show ?thesis by (simp add: halts_on_error_append notify_created)
next
  case (items_fail urls ev1 e ev2)
  from item_loop_halts [OF items_fail(3)]
  have "halts_on_error ev2 (Inl e :: error + jsstring list)" by simp
  then have "halts_on_error ev2 (Inl e :: error + jsstring)" by (rule halts_on_error_result)
  with items_fail(4,5) upload_loop_created [OF items_fail(1)] show ?thesis
    by (simp add: halts_on_error_append)
next
  case (root_fail urls ev1 ids ev2 e ev4)
  from item_loop_halts [OF root_fail(3)] have "list_all fetch_created ev2" by simp
  moreover from createCarouselContainer_shape [OF root_fail(4)] root_fail(5)
  have "halts_on_error ev4 r" by (simp add: call_shape_halts)
  ultimately show ?thesis using root_fail(6) upload_loop_created [OF root_fail(1)]
    by (simp add: halts_on_error_append notify_created)
next
  case (root_ok urls ev1 ids ev2 cid ev4 ev5)
  from item_loop_halts [OF root_ok(3)] have "list_all fetch_created ev2" by simp
  moreover from createCarouselContainer_shape [OF root_ok(4)]
  have "list_all fetch_created ev4" by (simp add: call_shape_created)
  ultimately show ?thesis
    using root_ok(6) upload_loop_created [OF root_ok(1)] finalize_halts [OF root_ok(5)]
    by (simp add: halts_on_error_append notify_created)
qed

lemma calls_of_append: "calls_of (a @ b) = calls_of a @ calls_of b"
  by (simp add: calls_of_def)

lemma calls_of_notify: "calls_of (notify sink msg) = []"
  by (simp add: calls_of_def notify_def)

lemma call_shape_calls_ok:
  "call_shape c uid (Inr i) ev \<Longrightarrow> is_call_or_return c \<Longrightarrow> calls_of ev = [c, Returned i]"
  by (auto simp: call_shape_def calls_of_def)

lemma call_shape_calls_fail:
  "call_shape c uid (Inl e) ev \<Longrightarrow> is_call_or_return c \<Longrightarrow> calls_of ev = [c]"
  by (auto simp: call_shape_def calls_of_def)

lemma upload_loop_calls:
  "upload_loop E h sink n i bs = (urls, ev) \<Longrightarrow>
   length urls = length bs \<and> calls_of ev = upload_calls bs urls"
proof (induction bs arbitrary: h i urls ev)
  case Nil
  then show ?case by (simp add: calls_of_def)
next
  case (Cons b bs)
  let ?ev1 = "notify sink (uploading_msg i n)"
  obtain url ev2 where up: "uploadImageToPublicServer E (h @ ?ev1) b = (url, ev2)"
    by (cases "uploadImageToPublicServer E (h @ ?ev1) b")
  obtain us ev3 where lp: "upload_loop E (h @ ?ev1 @ ev2) sink n (i + 1) bs = (us, ev3)"
    by (cases "upload_loop E (h @ ?ev1 @ ev2) sink n (i + 1) bs")
  from Cons.prems up lp have urls: "urls = url # us" and ev: "ev = ?ev1 @ ev2 @ ev3"
    by (simp_all add: Let_def)
  from up have ev2: "ev2 = [UploadCall b, UploadReturn url]"
    by (auto simp: uploadImageToPublicServer_def Let_def)
  from Cons.IH [OF lp] urls ev ev2 show ?case
    by (simp add: calls_of_append calls_of_notify) (simp add: calls_of_def)
qed

lemma item_loop_calls:
  "item_loop E h sink user i urls = (Inr ids, ev) \<Longrightarrow>
   length ids = length urls \<and> calls_of ev = item_calls user urls ids"
proof (induction urls arbitrary: h i ids ev)
  case Nil
  then show ?case by (simp add: calls_of_def)
next
  case (Cons url urls)
  let ?ev1 = "notify sink (preparing_msg i)"
  obtain r2 ev2 where it: "createItemContainer E (h @ ?ev1) (user_id user) url
      (accessToken user) [] True = (r2, ev2)"
    by (cases "createItemContainer E (h @ ?ev1) (user_id user) url (accessToken user) [] True")
  obtain rs ev3 where lp: "item_loop E (h @ ?ev1 @ ev2) sink user (i + 1) urls = (rs, ev3)"
    by (cases "item_loop E (h @ ?ev1 @ ev2) sink user (i + 1) urls")
  note eq = Cons.prems [unfolded item_loop_Cons [OF it lp]]
  from eq obtain c cs where r2: "r2 = Inr c" and rs: "rs = Inr cs"
    and ids: "ids = c # cs" and ev: "ev = ?ev1 @ ev2 @ ev3"
    by (cases r2; cases rs) auto
  from createItemContainer_shape [OF it] r2
  have c2: "calls_of ev2 = [ItemCall (user_id user) url (accessToken user) [] True, Returned c]"
    by (simp add: call_shape_calls_ok)
  from Cons.IH [OF lp [unfolded rs]] ids ev c2 show ?case
    by (simp add: calls_of_append calls_of_notify)
qed

lemma finalize_calls_ok:
  assumes "finalize E h sink user cid = (Inr pid, ev)"
  shows "calls_of ev = [PublishCall (user_id user) cid (accessToken user), Returned pid]"
proof -
  from assms obtain ev2 where
    p: "publishMedia E (h @ notify sink (js ''Finalizing publication...'')) (user_id user) cid
       (accessToken user) = (Inr pid, ev2)"
    and ev: "ev = notify sink (js ''Finalizing publication...'') @ ev2"
    by (rule finalize_parts)
  from publishMedia_shape [OF p] ev show ?thesis
    by (simp add: calls_of_append calls_of_notify call_shape_calls_ok)
qed

lemma finalize_calls_fail:
  assumes "finalize E h sink user cid = (Inl e, ev)"
  shows "calls_of ev = [PublishCall (user_id user) cid (accessToken user)]"
proof -
  from assms obtain ev2 where
    p: "publishMedia E (h @ notify sink (js ''Finalizing publication...'')) (user_id user) cid
       (accessToken user) = (Inl e, ev2)"
    and ev: "ev = notify sink (js ''Finalizing publication...'') @ ev2"
    by (rule finalize_parts)
  from publishMedia_shape [OF p] ev show ?thesis
    by (simp add: calls_of_append calls_of_notify call_shape_calls_fail)
qed

lemma carousel_run_calls:
  assumes run: "publishCarouselToInstagram E user bs cap sink = (Inr pid, ev)"
    and n: "length bs \<noteq> 1"
  shows "\<exists>urls ids root. length urls = length bs \<and> length ids = length bs \<and>
     calls_of ev = upload_calls bs urls @ item_calls user urls ids @
       [CarouselCall (user_id user) ids (accessToken user) cap, Returned root,
        PublishCall (user_id user) root (accessToken user), Returned pid]"
  using run
proof (cases rule: publish_cases)
  case (single_fail urls ev1 e ev3)
  then show ?thesis by simp
next
  case (single_ok urls ev1 cid ev3 ev4)
  with upload_loop_calls [OF single_ok(1)] n show ?thesis by simp
next
  case (items_fail urls ev1 e ev2)
  then show ?thesis by simp
next
  case (root_fail urls ev1 ids ev2 e ev4)
  then show ?thesis by simp
next
  case (root_ok urls ev1 ids ev2 cid ev4 ev5)
  from upload_loop_calls [OF root_ok(1)]
  have l1: "length urls = length bs" and c1: "calls_of ev1 = upload_calls bs urls"
    by simp_all
  from item_loop_calls [OF root_ok(3)]
  have l2: "length ids = length urls" and c2: "calls_of ev2 = item_calls user urls ids"
    by simp_all
  from createCarouselContainer_shape [OF root_ok(4)]
  have c4: "calls_of ev4 = [CarouselCall (user_id user) ids (accessToken user) cap, Returned cid]"
    by (simp add: call_shape_calls_ok)
  from finalize_calls_ok [OF root_ok(5)]
  have c5: "calls_of ev5 = [PublishCall (user_id user) cid (accessToken user), Returned pid]" .
  from root_ok(6) c1 c2 c4 c5
  have "calls_of ev = upload_calls bs urls @ item_calls user urls ids @
       [CarouselCall (user_id user) ids (accessToken user) cap, Returned cid,
        PublishCall (user_id user) cid (accessToken user), Returned pid]"
    by (simp add: calls_of_append calls_of_notify)
  with l1 l2 show ?thesis by auto
qed

lemma empty_run_calls:
  assumes run: "publishCarouselToInstagram E user [] cap sink = (r, ev)"
  shows "(\<exists>e. r = Inl e \<and> calls_of ev =
         [CarouselCall (user_id user) [] (accessToken user) cap])
    \<or> (\<exists>e root. r = Inl e \<and> calls_of ev =
         [CarouselCall (user_id user) [] (accessToken user) cap, Returned root,
          PublishCall (user_id user) root (accessToken user)])
    \<or> (\<exists>root pid. r = Inr pid \<and> calls_of ev =
         [CarouselCall (user_id user) [] (accessToken user) cap, Returned root,
          PublishCall (user_id user) root (accessToken user), Returned pid])"
  using run
proof (cases rule: publish_cases)
  case (single_fail urls ev1 e ev3)
  then show ?thesis by simp
next
  case (single_ok urls ev1 cid ev3 ev4)
  then show ?thesis by simp
next
  case (items_fail urls ev1 e ev2)
  then show ?thesis by simp
next
  case (root_fail urls ev1 ids ev2 e ev4)
  then have "urls = []" "ev1 = []" "ids = []" "ev2 = []" by auto
  with root_fail createCarouselContainer_shape [OF root_fail(4)] show ?thesis
    by (simp add: calls_of_append calls_of_notify call_shape_calls_fail)
next
  case (root_ok urls ev1 ids ev2 cid ev4 ev5)
  then have e: "urls = []" "ev1 = []" "ids = []" "ev2 = []" by auto
  from createCarouselContainer_shape [OF root_ok(4)] e
  have c4: "calls_of ev4 = [CarouselCall (user_id user) [] (accessToken user) cap, Returned cid]"
    by (simp add: call_shape_calls_ok)
  show ?thesis
  proof (cases r)
    case (Inl err)
    from finalize_calls_fail [OF root_ok(5) [unfolded Inl]] root_ok(6) e c4 Inl
    show ?thesis by (simp add: calls_of_append calls_of_notify)
  next
    case (Inr pid)
    from finalize_calls_ok [OF root_ok(5) [unfolded Inr]] root_ok(6) e c4 Inr
    show ?thesis by (simp add: calls_of_append calls_of_notify)
  qed
qed

lemma empty_run_mock_succeeds:
  assumes run: "publishCarouselToInstagram E user [] cap sink = (r, ev)"
    and mock: "user_id user = MOCK_USER_ID" and enc: "encodeURIComponent E cap \<noteq> None"
  shows "\<exists>pid. r = Inr pid"
  using run mock enc
  by (auto simp: publishCarouselToInstagram_def createCarouselContainer_def finalize_def
      publishMedia_def Let_def)

lemma publish_phases:
  "publishCarouselToInstagram E user bs cap sink =
     (let (urls, ev1) = upload_loop E [] sink (length bs) 0 bs;
          (r, ev2) = create_containers E ev1 sink user urls cap
      in case r of
           Inl e \<Rightarrow> (Inl e, ev1 @ ev2)
         | Inr cid \<Rightarrow>
            (let (res, ev3) = finalize E (ev1 @ ev2) sink user cid
             in (res, ev1 @ ev2 @ ev3)))"
  by (auto simp: publishCarouselToInstagram_def create_containers_def Let_def
      split: prod.splits sum.splits)

lemma fetches_ok_append:
  "fetches_ok user (a @ b) \<longleftrightarrow> fetches_ok user a \<and> fetches_ok user b"
  by (auto simp: fetches_ok_def)

lemma fetches_ok_notify: "fetches_ok user (notify sink msg)"
  by (simp add: fetches_ok_def notify_created)

lemma progress_of_append: "progress_of (a @ b) = progress_of a @ progress_of b"
  by (induction a rule: progress_of.induct) simp_all

lemma call_shape_progress:
  "call_shape c uid r ev \<Longrightarrow> is_call_or_return c \<Longrightarrow> progress_of ev = []"
  by (cases c) (auto simp: call_shape_def)

lemma call_shape_no_fetch:
  "call_shape c MOCK_USER_ID r ev \<Longrightarrow> is_call_or_return c \<Longrightarrow> filter is_fetch ev = []"
  by (cases c) (auto simp: call_shape_def)

lemma call_shape_mock_result:
  "call_shape c MOCK_USER_ID r ev \<Longrightarrow> r = Inl URIError \<or> (\<exists>i. r = Inr i)"
  by (auto simp: call_shape_def)

lemma fetch_post_isl:
  "fetch_post E h u = (r, ev) \<Longrightarrow> list_all fetch_created ev \<Longrightarrow> \<not> isl r"
  by (auto simp: fetch_post_def split: fetch_result.splits)

lemma createItemContainer_isl:
  assumes "createItemContainer E h (user_id user) url tok cap isC = (r, ev)"
    and "fetches_ok user ev"
  shows "isl r \<longleftrightarrow> \<not> item_encodes E url cap isC"
  using assms
  by (auto simp: createItemContainer_def item_encodes_def fetches_ok_def Let_def
      split: option.splits if_splits prod.splits dest: fetch_post_isl)

lemma createCarouselContainer_isl:
  assumes "createCarouselContainer E h (user_id user) ids tok cap = (r, ev)"
    and "fetches_ok user ev"
  shows "isl r \<longleftrightarrow> encodeURIComponent E cap = None"
  using assms
  by (auto simp: createCarouselContainer_def fetches_ok_def Let_def
      split: option.splits if_splits prod.splits dest: fetch_post_isl)

lemma publishMedia_isl:
  assumes "publishMedia E h (user_id user) cid tok = (r, ev)"
    and "fetches_ok user ev"
  shows "\<not> isl r"
  using assms
  by (auto simp: publishMedia_def fetches_ok_def Let_def
      split: if_splits prod.splits dest: fetch_post_isl)

lemma item_loop_sim:
  "item_loop E h sink user i urls = (r, ev) \<Longrightarrow>
   item_loop E h' sink user' i urls = (r', ev') \<Longrightarrow>
   fetches_ok user ev \<Longrightarrow> fetches_ok user' ev' \<Longrightarrow>
   progress_of ev = progress_of ev' \<and> (isl r \<longleftrightarrow> isl r')"
proof (induction urls arbitrary: h h' i r ev r' ev')
  case Nil
  then show ?case by auto
next
  case (Cons url urls)
  let ?ev1 = "notify sink (preparing_msg i)"
  obtain r2 ev2 where it: "createItemContainer E (h @ ?ev1) (user_id user) url
      (accessToken user) [] True = (r2, ev2)"
    by (cases "createItemContainer E (h @ ?ev1) (user_id user) url (accessToken user) [] True")
  obtain rs ev3 where lp: "item_loop E (h @ ?ev1 @ ev2) sink user (i + 1) urls = (rs, ev3)"
    by (cases "item_loop E (h @ ?ev1 @ ev2) sink user (i + 1) urls")
  obtain r2' ev2' where it': "createItemContainer E (h' @ ?ev1) (user_id user') url
      (accessToken user') [] True = (r2', ev2')"
    by (cases "createItemContainer E (h' @ ?ev1) (user_id user') url (accessToken user') [] True")
  obtain rs' ev3' where
    lp': "item_loop E (h' @ ?ev1 @ ev2') sink user' (i + 1) urls = (rs', ev3')"
    by (cases "item_loop E (h' @ ?ev1 @ ev2') sink user' (i + 1) urls")
  note eq = Cons.prems(1) [unfolded item_loop_Cons [OF it lp]]
  note eq' = Cons.prems(2) [unfolded item_loop_Cons [OF it' lp']]
  from eq Cons.prems(3) have ok2: "fetches_ok user ev2"
    by (cases r2; cases rs) (auto simp: fetches_ok_append)
  from eq' Cons.prems(4) have ok2': "fetches_ok user' ev2'"
    by (cases r2'; cases rs') (auto simp: fetches_ok_append)
  from createItemContainer_isl [OF it ok2] createItemContainer_isl [OF it' ok2']
  have same: "isl r2 \<longleftrightarrow> isl r2'" by simp
  from createItemContainer_shape [OF it] createItemContainer_shape [OF it']
  have p2: "progress_of ev2 = []" "progress_of ev2' = []"
    by (simp_all add: call_shape_progress)
  show ?case
  proof (cases r2)
    case (Inl e)
    with same obtain e' where Inl': "r2' = Inl e'" by (cases r2') auto
    from eq Inl have "r = Inl e" "ev = ?ev1 @ ev2" by simp_all
    moreover from eq' Inl' have "r' = Inl e'" "ev' = ?ev1 @ ev2'" by simp_all
    ultimately show ?thesis using p2 by (simp add: progress_of_append)
  next
    case (Inr c)
    with same obtain c' where Inr': "r2' = Inr c'" by (cases r2') auto
    from eq Inr have ev: "ev = ?ev1 @ ev2 @ ev3"
      by (cases rs) simp_all
    from eq Inr have r: "isl r = isl rs"
      by (cases rs) auto
    from eq' Inr' have ev': "ev' = ?ev1 @ ev2' @ ev3'"
      by (cases rs') simp_all
    from eq' Inr' have r': "isl r' = isl rs'"
      by (cases rs') auto
    from ev Cons.prems(3) have ok3: "fetches_ok user ev3" by (simp add: fetches_ok_append)
    from ev' Cons.prems(4) have ok3': "fetches_ok user' ev3'" by (simp add: fetches_ok_append)
    from Cons.IH [OF lp lp' ok3 ok3'] ev ev' r r' p2 show ?thesis
      by (simp add: progress_of_append)
  qed
qed

lemma create_containers_sim:
  assumes cc: "create_containers E h sink user urls cap = (r, ev)"
    and cc': "create_containers E h' sink user' urls cap = (r', ev')"
    and ok: "fetches_ok user ev" and ok': "fetches_ok user' ev'"
  shows "progress_of ev = progress_of ev' \<and> (isl r \<longleftrightarrow> isl r')"
proof (cases "length urls = 1")
  case True
  let ?ev2 = "notify sink (js ''Creating media container...'')"
  from cc True obtain ev3 where
    it: "createItemContainer E (h @ ?ev2) (user_id user) (urls ! 0) (accessToken user) cap False
         = (r, ev3)" and ev: "ev = ?ev2 @ ev3"
    by (auto simp: create_containers_def Let_def split: prod.splits)
  from cc' True obtain ev3' where
    it': "createItemContainer E (h' @ ?ev2) (user_id user') (urls ! 0) (accessToken user') cap
         False = (r', ev3')" and ev': "ev' = ?ev2 @ ev3'"
    by (auto simp: create_containers_def Let_def split: prod.splits)
  from ok ev have ok3: "fetches_ok user ev3" by (simp add: fetches_ok_append)
  from ok' ev' have ok3': "fetches_ok user' ev3'" by (simp add: fetches_ok_append)
  from createItemContainer_isl [OF it ok3] createItemContainer_isl [OF it' ok3']
  have "isl r \<longleftrightarrow> isl r'" by simp
  moreover from createItemContainer_shape [OF it] createItemContainer_shape [OF it']
  have "progress_of ev3 = []" "progress_of ev3' = []"
    by (simp_all add: call_shape_progress)
  ultimately show ?thesis using ev ev' by (simp add: progress_of_append)
next
  case False
  let ?ev3 = "notify sink (js ''Creating carousel object...'')"
  obtain rs ev2 where lp: "item_loop E h sink user 0 urls = (rs, ev2)"
    by (cases "item_loop E h sink user 0 urls")
  obtain rs' ev2' where lp': "item_loop E h' sink user' 0 urls = (rs', ev2')"
    by (cases "item_loop E h' sink user' 0 urls")
  from cc False lp have pre: "\<exists>rest. ev = ev2 @ rest"
    by (auto simp: create_containers_def Let_def split: prod.splits sum.splits)
  from cc' False lp' have pre': "\<exists>rest. ev' = ev2' @ rest"
    by (auto simp: create_containers_def Let_def split: prod.splits sum.splits)
  from pre ok have ok2: "fetches_ok user ev2" by (auto simp: fetches_ok_append)
  from pre' ok' have ok2': "fetches_ok user' ev2'" by (auto simp: fetches_ok_append)
  from item_loop_sim [OF lp lp' ok2 ok2']
  have p2: "progress_of ev2 = progress_of ev2'" and s2: "isl rs \<longleftrightarrow> isl rs'" by simp_all
  show ?thesis
  proof (cases rs)
    case (Inl e)
    with s2 obtain e' where Inl': "rs' = Inl e'" by (cases rs') auto
    from cc False lp Inl have "r = Inl e" "ev = ev2"
      by (simp_all add: create_containers_def)
    moreover from cc' False lp' Inl' have "r' = Inl e'" "ev' = ev2'"
      by (simp_all add: create_containers_def)
    ultimately show ?thesis using p2 by simp
  next
    case (Inr ids)
    with s2 obtain ids' where Inr': "rs' = Inr ids'" by (cases rs') auto
    from cc False lp Inr obtain ev4 where
      c4: "createCarouselContainer E (h @ ev2 @ ?ev3) (user_id user) ids (accessToken user) cap
           = (r, ev4)" and ev: "ev = ev2 @ ?ev3 @ ev4"
      by (auto simp: create_containers_def Let_def split: prod.splits)
    from cc' False lp' Inr' obtain ev4' where
      c4': "createCarouselContainer E (h' @ ev2' @ ?ev3) (user_id user') ids' (accessToken user')
           cap = (r', ev4')" and ev': "ev' = ev2' @ ?ev3 @ ev4'"
      by (auto simp: create_containers_def Let_def split: prod.splits)
    from ok ev have ok4: "fetches_ok user ev4" by (simp add: fetches_ok_append)
    from ok' ev' have ok4': "fetches_ok user' ev4'" by (simp add: fetches_ok_append)
    from createCarouselContainer_isl [OF c4 ok4] createCarouselContainer_isl [OF c4' ok4']
    have "isl r \<longleftrightarrow> isl r'" by simp
    moreover from createCarouselContainer_shape [OF c4] createCarouselContainer_shape [OF c4']
    have "progress_of ev4 = []" "progress_of ev4' = []"
      by (simp_all add: call_shape_progress)
    ultimately show ?thesis using ev ev' p2 by (simp add: progress_of_append)
  qed
qed

lemma finalize_progress:
  assumes "finalize E h sink user cid = (r, ev)"
  shows "progress_of ev = progress_of (notify sink (js ''Finalizing publication...''))"
proof -
  from assms obtain ev2 where
    p: "publishMedia E (h @ notify sink (js ''Finalizing publication...'')) (user_id user) cid
       (accessToken user) = (r, ev2)"
    and ev: "ev = notify sink (js ''Finalizing publication...'') @ ev2"
    by (rule finalize_parts)
  from publishMedia_shape [OF p] ev show ?thesis
    by (simp add: progress_of_append call_shape_progress)
qed

lemma publish_sim:
  assumes run: "publishCarouselToInstagram E user bs cap sink = (r, ev)"
    and run': "publishCarouselToInstagram E user' bs cap sink = (r', ev')"
    and ok: "fetches_ok user ev" and ok': "fetches_ok user' ev'"
  shows "progress_of ev = progress_of ev'"
proof -
  obtain urls ev1 where up: "upload_loop E [] sink (length bs) 0 bs = (urls, ev1)"
    by (cases "upload_loop E [] sink (length bs) 0 bs")
  obtain r2 ev2 where cc: "create_containers E ev1 sink user urls cap = (r2, ev2)"
    by (cases "create_containers E ev1 sink user urls cap")
  obtain r2' ev2' where cc': "create_containers E ev1 sink user' urls cap = (r2', ev2')"
    by (cases "create_containers E ev1 sink user' urls cap")
  from run up cc have pre: "\<exists>rest. ev = ev1 @ ev2 @ rest"
    by (auto simp: publish_phases Let_def split: sum.splits prod.splits)
  from run' up cc' have pre': "\<exists>rest. ev' = ev1 @ ev2' @ rest"
    by (auto simp: publish_phases Let_def split: sum.splits prod.splits)
  from pre ok have ok2: "fetches_ok user ev2" by (auto simp: fetches_ok_append)
  from pre' ok' have ok2': "fetches_ok user' ev2'" by (auto simp: fetches_ok_append)
  from create_containers_sim [OF cc cc' ok2 ok2']
  have p2: "progress_of ev2 = progress_of ev2'" and s2: "isl r2 \<longleftrightarrow> isl r2'" by simp_all
  show ?thesis
  proof (cases r2)
    case (Inl e)
    with s2 obtain e' where Inl': "r2' = Inl e'" by (cases r2') auto
    from run up cc Inl have "ev = ev1 @ ev2" by (simp add: publish_phases)
    moreover from run' up cc' Inl' have "ev' = ev1 @ ev2'" by (simp add: publish_phases)
    ultimately show ?thesis using p2 by (simp add: progress_of_append)
  next
    case (Inr cid)
    with s2 obtain cid' where Inr': "r2' = Inr cid'" by (cases r2') auto
    from run up cc Inr obtain ev3 where
      f: "finalize E (ev1 @ ev2) sink user cid = (r, ev3)" and ev: "ev = ev1 @ ev2 @ ev3"
      by (auto simp: publish_phases Let_def split: prod.splits)
    from run' up cc' Inr' obtain ev3' where
      f': "finalize E (ev1 @ ev2') sink user' cid' = (r', ev3')" and ev': "ev' = ev1 @ ev2' @ ev3'"
      by (auto simp: publish_phases Let_def split: prod.splits)
    from finalize_progress [OF f] finalize_progress [OF f'] ev ev' p2 show ?thesis
      by (simp add: progress_of_append)
  qed
qed

lemma notify_no_fetch: "filter is_fetch (notify sink msg) = []"
  by (simp add: notify_def)

lemma upload_loop_no_fetch:
  "upload_loop E h sink n i bs = (urls, ev) \<Longrightarrow> filter is_fetch ev = []"
proof (induction bs arbitrary: h i urls ev)
  case Nil
  then show ?case by simp
next
  case (Cons b bs)
  let ?ev1 = "notify sink (uploading_msg i n)"
  obtain url ev2 where up: "uploadImageToPublicServer E (h @ ?ev1) b = (url, ev2)"
    by (cases "uploadImageToPublicServer E (h @ ?ev1) b")
  obtain us ev3 where lp: "upload_loop E (h @ ?ev1 @ ev2) sink n (i + 1) bs = (us, ev3)"
    by (cases "upload_loop E (h @ ?ev1 @ ev2) sink n (i + 1) bs")
  from Cons.prems up lp have ev: "ev = ?ev1 @ ev2 @ ev3"
    by (simp add: Let_def)
  from up have "ev2 = [UploadCall b, UploadReturn url]"
    by (auto simp: uploadImageToPublicServer_def Let_def)
  with Cons.IH [OF lp] ev show ?case by (simp add: notify_no_fetch)
qed

lemma mock_call:
  assumes "call_shape c MOCK_USER_ID r ev" and "is_call_or_return c"
  shows "filter is_fetch ev = [] \<and> (\<forall>e. r = Inl e \<longrightarrow> e = URIError)"
  using assms call_shape_no_fetch [OF assms] call_shape_mock_result [OF assms(1)] by auto

lemma item_loop_mock:
  "user_id user = MOCK_USER_ID \<Longrightarrow> item_loop E h sink user i urls = (r, ev) \<Longrightarrow>
   filter is_fetch ev = [] \<and> (\<forall>e. r = Inl e \<longrightarrow> e = URIError)"
proof (induction urls arbitrary: h i r ev)
  case Nil
  then show ?case by auto
next
  case (Cons url urls)
  let ?ev1 = "notify sink (preparing_msg i)"
  obtain r2 ev2 where it: "createItemContainer E (h @ ?ev1) (user_id user) url
      (accessToken user) [] True = (r2, ev2)"
    by (cases "createItemContainer E (h @ ?ev1) (user_id user) url (accessToken user) [] True")
  obtain rs ev3 where lp: "item_loop E (h @ ?ev1 @ ev2) sink user (i + 1) urls = (rs, ev3)"
    by (cases "item_loop E (h @ ?ev1 @ ev2) sink user (i + 1) urls")
  note eq = Cons.prems(2) [unfolded item_loop_Cons [OF it lp]]
  from createItemContainer_shape [OF it] Cons.prems(1)
  have m2: "filter is_fetch ev2 = [] \<and> (\<forall>e. r2 = Inl e \<longrightarrow> e = URIError)"
    by (simp add: mock_call)
  from Cons.IH [OF Cons.prems(1) lp]
  have m3: "filter is_fetch ev3 = [] \<and> (\<forall>e. rs = Inl e \<longrightarrow> e = URIError)" .
  from eq m2 m3 show ?case
    by (cases r2; cases rs) (auto simp: notify_no_fetch)
qed

lemma create_containers_mock:
  assumes mock: "user_id user = MOCK_USER_ID"
    and cc: "create_containers E h sink user urls cap = (r, ev)"
  shows "filter is_fetch ev = [] \<and> (\<forall>e. r = Inl e \<longrightarrow> e = URIError)"
proof (cases "length urls = 1")
  case True
  let ?ev2 = "notify sink (js ''Creating media container...'')"
  from cc True obtain ev3 where
    it: "createItemContainer E (h @ ?ev2) (user_id user) (urls ! 0) (accessToken user) cap False
         = (r, ev3)" and ev: "ev = ?ev2 @ ev3"
    by (auto simp: create_containers_def Let_def split: prod.splits)
  from createItemContainer_shape [OF it] mock ev show ?thesis
    by (simp add: mock_call notify_no_fetch)
next
  case False
  let ?ev3 = "notify sink (js ''Creating carousel object...'')"
  obtain rs ev2 where lp: "item_loop E h sink user 0 urls = (rs, ev2)"
    by (cases "item_loop E h sink user 0 urls")
  note m2 = item_loop_mock [OF mock lp]
  show ?thesis
  proof (cases rs)
    case (Inl e)
    with cc False lp have "r = Inl e" "ev = ev2"
      by (simp_all add: create_containers_def)
    with m2 Inl show ?thesis by simp
  next
    case (Inr ids)
    with cc False lp obtain ev4 where
      c4: "createCarouselContainer E (h @ ev2 @ ?ev3) (user_id user) ids (accessToken user) cap
           = (r, ev4)" and ev: "ev = ev2 @ ?ev3 @ ev4"
      by (auto simp: create_containers_def Let_def split: prod.splits)
    from createCarouselContainer_shape [OF c4] mock ev m2 show ?thesis
      by (simp add: mock_call notify_no_fetch)
  qed
qed

lemma publish_mock:
  assumes mock: "user_id user = MOCK_USER_ID"
    and run: "publishCarouselToInstagram E user bs cap sink = (r, ev)"
  shows "filter is_fetch ev = [] \<and> (\<forall>e. r = Inl e \<longrightarrow> e = URIError)"
proof -
  obtain urls ev1 where up: "upload_loop E [] sink (length bs) 0 bs = (urls, ev1)"
    by (cases "upload_loop E [] sink (length bs) 0 bs")
  obtain r2 ev2 where cc: "create_containers E ev1 sink user urls cap = (r2, ev2)"
    by (cases "create_containers E ev1 sink user urls cap")
  note m1 = upload_loop_no_fetch [OF up]
  note m2 = create_containers_mock [OF mock cc]
  show ?thesis
  proof (cases r2)
    case (Inl e)
    with run up cc have "r = Inl e" "ev = ev1 @ ev2" by (simp_all add: publish_phases)
    with m1 m2 Inl show ?thesis by simp
  next
    case (Inr cid)
    with run up cc obtain ev3 where
      f: "finalize E (ev1 @ ev2) sink user cid = (r, ev3)" and ev: "ev = ev1 @ ev2 @ ev3"
      by (auto simp: publish_phases Let_def split: prod.splits)
    from f obtain ev4 where
      p: "publishMedia E (ev1 @ ev2 @ notify sink (js ''Finalizing publication...''))
           (user_id user) cid (accessToken user) = (r, ev4)"
      and ev3: "ev3 = notify sink (js ''Finalizing publication...'') @ ev4"
      by (rule finalize_parts) simp
    from publishMedia_shape [OF p] mock ev ev3 m1 m2 show ?thesis
      by (simp add: mock_call notify_no_fetch)
  qed
qed

lemma graph_base:
  "js ''https://graph.facebook.com/'' @ API_VERSION @ js ''/'' @ rest =
   js ''https://graph.facebook.com/v19.0/'' @ rest"
  by (simp add: API_VERSION_def js_def)

lemma fetch_post_eq:
  "fetch_post E h u =
     (fetch_outcome (remote E h u), Fetch u (remote E h u) # returned_of (remote E h u))"
  by (cases "remote E h u") (simp_all add: fetch_post_def)

lemma createItemContainer_real:
  assumes "uid \<noteq> MOCK_USER_ID"
    and "createItemContainer E h uid url tok cap isC = (r, ev)"
  shows "(r = Inl URIError \<and> ev = [ItemCall uid url tok cap isC])
       \<or> (\<exists>eu fr. encodeURIComponent E url = Some eu \<and> isC \<and> r = fetch_outcome fr
            \<and> ev = ItemCall uid url tok cap isC
                   # Fetch (carousel_item_url uid eu tok) fr # returned_of fr)
       \<or> (\<exists>eu ec fr. encodeURIComponent E url = Some eu
            \<and> encodeURIComponent E cap = Some ec \<and> \<not> isC \<and> r = fetch_outcome fr
            \<and> ev = ItemCall uid url tok cap isC
                   # Fetch (single_image_url uid eu tok ec) fr # returned_of fr)"
proof (cases "encodeURIComponent E url")
  case None
  with assms show ?thesis by (simp add: createItemContainer_def)
next
  case (Some eu)
  show ?thesis
  proof (cases isC)
    case True
    with assms Some show ?thesis
      by (auto simp: createItemContainer_def Let_def fetch_post_eq graph_base
          carousel_item_url_def)
  next
    case False
    show ?thesis
    proof (cases "encodeURIComponent E cap")
      case None
      with assms Some False show ?thesis by (simp add: createItemContainer_def Let_def)
    next
      case (Some ec)
      with assms \<open>encodeURIComponent E url = Some eu\<close> False show ?thesis
        by (auto simp: createItemContainer_def Let_def fetch_post_eq graph_base
            single_image_url_def)
    qed
  qed
qed

lemma createCarouselContainer_real:
  assumes "uid \<noteq> MOCK_USER_ID"
    and "createCarouselContainer E h uid ids tok cap = (r, ev)"
  shows "(r = Inl URIError \<and> ev = [CarouselCall uid ids tok cap])
       \<or> (\<exists>ec fr. encodeURIComponent E cap = Some ec \<and> r = fetch_outcome fr
            \<and> ev = CarouselCall uid ids tok cap
                   # Fetch (carousel_url uid ids ec tok) fr # returned_of fr)"
proof (cases "encodeURIComponent E cap")
  case None
  with assms show ?thesis by (simp add: createCarouselContainer_def)
next
  case (Some ec)
  with assms show ?thesis
    by (auto simp: createCarouselContainer_def Let_def fetch_post_eq graph_base
        carousel_url_def)
qed

lemma publishMedia_real:
  assumes "uid \<noteq> MOCK_USER_ID"
    and "publishMedia E h uid cid tok = (r, ev)"
  shows "\<exists>fr. r = fetch_outcome fr
            \<and> ev = PublishCall uid cid tok # Fetch (publish_url uid cid tok) fr # returned_of fr"
  using assms
  by (auto simp: publishMedia_def Let_def fetch_post_eq graph_base publish_url_def)

lemma fetch_outcome_Inr:
  "fetch_outcome fr = Inr i \<longleftrightarrow> fr = Created i"
  "Inr i = fetch_outcome fr \<longleftrightarrow> fr = Created i"
  by (cases fr; auto)+

lemma steps_of_append: "steps_of (a @ b) = steps_of a @ steps_of b"
  by (simp add: steps_of_def)

lemma steps_of_notify: "steps_of (notify sink msg) = []"
  by (simp add: steps_of_def notify_def)

lemma steps_of_no_fetch: "filter is_fetch ev = [] \<Longrightarrow> steps_of ev = calls_of ev"
proof (induction ev)
  case Nil
  show ?case by (simp add: steps_of_def calls_of_def)
next
  case (Cons e ev)
  then show ?case by (cases e) (auto simp: steps_of_def calls_of_def split: if_splits)
qed

lemma calls_of_steps_of: "calls_of (steps_of ev) = calls_of ev"
proof (induction ev)
  case Nil
  show ?case by (simp add: steps_of_def calls_of_def)
next
  case (Cons e ev)
  then show ?case by (cases e) (auto simp: steps_of_def calls_of_def)
qed

lemma upload_loop_steps:
  assumes "upload_loop E h sink n i bs = (urls, ev)"
  shows "steps_of ev = upload_calls bs urls"
  using upload_loop_calls [OF assms] steps_of_no_fetch [OF upload_loop_no_fetch [OF assms]]
  by simp

lemma item_loop_steps:
  "user_id user \<noteq> MOCK_USER_ID \<Longrightarrow> item_loop E h sink user i urls = (Inr ids, ev) \<Longrightarrow>
   \<exists>eus. map (encodeURIComponent E) urls = map Some eus
        \<and> steps_of ev = item_steps user urls eus ids"
proof (induction urls arbitrary: h i ids ev)
  case Nil
  then have "ev = []" by simp
  then show ?case by (simp add: steps_of_def)
next
  case (Cons url urls)
  let ?ev1 = "notify sink (preparing_msg i)"
  obtain r2 ev2 where it: "createItemContainer E (h @ ?ev1) (user_id user) url
      (accessToken user) [] True = (r2, ev2)"
    by (cases "createItemContainer E (h @ ?ev1) (user_id user) url (accessToken user) [] True")
  obtain rs ev3 where lp: "item_loop E (h @ ?ev1 @ ev2) sink user (i + 1) urls = (rs, ev3)"
    by (cases "item_loop E (h @ ?ev1 @ ev2) sink user (i + 1) urls")
  note eq = Cons.prems(2) [unfolded item_loop_Cons [OF it lp]]
  from eq obtain c cs where r2: "r2 = Inr c" and rs: "rs = Inr cs"
    and ids: "ids = c # cs" and ev: "ev = ?ev1 @ ev2 @ ev3"
    by (cases r2; cases rs) auto
  from createItemContainer_real [OF Cons.prems(1) it] r2
  obtain eu where eu: "encodeURIComponent E url = Some eu"
    and ev2: "ev2 = [ItemCall (user_id user) url (accessToken user) [] True,
                     Fetch (carousel_item_url (user_id user) eu (accessToken user)) (Created c),
                     Returned c]"
    by (auto simp: fetch_outcome_Inr)
  from Cons.IH [OF Cons.prems(1) lp [unfolded rs]] obtain eus where
    eus: "map (encodeURIComponent E) urls = map Some eus"
    and s3: "steps_of ev3 = item_steps user urls eus cs" by blast
  from eu eus have "map (encodeURIComponent E) (url # urls) = map Some (eu # eus)" by simp
  moreover from ev ev2 s3 ids
  have "steps_of ev = item_steps user (url # urls) (eu # eus) ids"
    by (simp add: steps_of_append steps_of_notify) (simp add: steps_of_def)
  ultimately show ?case by blast
qed

lemma finalize_real:
  assumes real: "user_id user \<noteq> MOCK_USER_ID"
    and fin: "finalize E h sink user cid = (r, ev)"
  shows "\<exists>fr. r = fetch_outcome fr
     \<and> steps_of ev = PublishCall (user_id user) cid (accessToken user)
          # Fetch (publish_url (user_id user) cid (accessToken user)) fr # returned_of fr"
proof -
  from fin obtain ev2 where
    p: "publishMedia E (h @ notify sink (js ''Finalizing publication...'')) (user_id user) cid
       (accessToken user) = (r, ev2)"
    and ev: "ev = notify sink (js ''Finalizing publication...'') @ ev2"
    by (rule finalize_parts)
  from publishMedia_real [OF real p] obtain fr where r: "r = fetch_outcome fr"
    and ev2: "ev2 = PublishCall (user_id user) cid (accessToken user)
          # Fetch (publish_url (user_id user) cid (accessToken user)) fr # returned_of fr"
    by blast
  have "steps_of (returned_of fr) = returned_of fr"
    by (cases fr) (simp_all add: steps_of_def)
  with ev ev2 have "steps_of ev = PublishCall (user_id user) cid (accessToken user)
          # Fetch (publish_url (user_id user) cid (accessToken user)) fr # returned_of fr"
    by (simp add: steps_of_append steps_of_notify) (simp add: steps_of_def)
  with r show ?thesis by blast
qed

lemma carousel_run_trace:
  assumes run: "publishCarouselToInstagram E user bs cap sink = (Inr pid, ev)"
    and n: "length bs \<noteq> 1"
  shows "\<exists>urls ids root. length urls = length bs \<and> length ids = length bs
     \<and> calls_of ev = upload_calls bs urls @ item_calls user urls ids @
         [CarouselCall (user_id user) ids (accessToken user) cap, Returned root,
          PublishCall (user_id user) root (accessToken user), Returned pid]
     \<and> (user_id user = MOCK_USER_ID \<longrightarrow> filter is_fetch ev = [])
     \<and> (user_id user \<noteq> MOCK_USER_ID \<longrightarrow>
          (\<exists>eus ec. map (encodeURIComponent E) urls = map Some eus
             \<and> encodeURIComponent E cap = Some ec
             \<and> steps_of ev = upload_calls bs urls @ item_steps user urls eus ids @
                 [CarouselCall (user_id user) ids (accessToken user) cap,
                  Fetch (carousel_url (user_id user) ids ec (accessToken user)) (Created root),
                  Returned root,
                  PublishCall (user_id user) root (accessToken user),
                  Fetch (publish_url (user_id user) root (accessToken user)) (Created pid),
                  Returned pid]))"
  using run
proof (cases rule: publish_cases)
  case (single_fail urls ev1 e ev3)
  then show ?thesis by simp
next
  case (single_ok urls ev1 cid ev3 ev4)
  with upload_loop_calls [OF single_ok(1)] n show ?thesis by simp
next
  case (items_fail urls ev1 e ev2)
  then show ?thesis by simp
next
  case (root_fail urls ev1 ids ev2 e ev4)
  then show ?thesis by simp
next
  case (root_ok urls ev1 ids ev2 cid ev4 ev5)
  let ?uid = "user_id user" and ?tok = "accessToken user"
  from upload_loop_calls [OF root_ok(1)]
  have l1: "length urls = length bs" and c1: "calls_of ev1 = upload_calls bs urls"
    by simp_all
  from item_loop_calls [OF root_ok(3)]
  have l2: "length ids = length urls" and c2: "calls_of ev2 = item_calls user urls ids"
    by simp_all
  from createCarouselContainer_shape [OF root_ok(4)]
  have c4: "calls_of ev4 = [CarouselCall ?uid ids ?tok cap, Returned cid]"
    by (simp add: call_shape_calls_ok)
  from finalize_calls_ok [OF root_ok(5)]
  have c5: "calls_of ev5 = [PublishCall ?uid cid ?tok, Returned pid]" .
  from root_ok(6) c1 c2 c4 c5
  have calls: "calls_of ev = upload_calls bs urls @ item_calls user urls ids @
       [CarouselCall ?uid ids ?tok cap, Returned cid, PublishCall ?uid cid ?tok, Returned pid]"
    by (simp add: calls_of_append calls_of_notify)
  have mock: "filter is_fetch ev = []" if "?uid = MOCK_USER_ID"
    using publish_mock [OF that run] by simp
  have real: "\<exists>eus ec. map (encodeURIComponent E) urls = map Some eus
             \<and> encodeURIComponent E cap = Some ec
             \<and> steps_of ev = upload_calls bs urls @ item_steps user urls eus ids @
                 [CarouselCall ?uid ids ?tok cap,
                  Fetch (carousel_url ?uid ids ec ?tok) (Created cid), Returned cid,
                  PublishCall ?uid cid ?tok,
                  Fetch (publish_url ?uid cid ?tok) (Created pid), Returned pid]"
    if r: "?uid \<noteq> MOCK_USER_ID"
  proof -
    note s1 = upload_loop_steps [OF root_ok(1)]
    from item_loop_steps [OF r root_ok(3)] obtain eus where
      eus: "map (encodeURIComponent E) urls = map Some eus"
      and s2: "steps_of ev2 = item_steps user urls eus ids" by blast
    from createCarouselContainer_real [OF r root_ok(4)] obtain ec where
      ec: "encodeURIComponent E cap = Some ec"
      and ev4: "ev4 = [CarouselCall ?uid ids ?tok cap,
                       Fetch (carousel_url ?uid ids ec ?tok) (Created cid), Returned cid]"
      by (auto simp: fetch_outcome_Inr)
    from finalize_real [OF r root_ok(5)]
    have s5: "steps_of ev5 = [PublishCall ?uid cid ?tok,
                Fetch (publish_url ?uid cid ?tok) (Created pid), Returned pid]"
      by (auto simp: fetch_outcome_Inr)
    from ev4 have s4: "steps_of ev4 = [CarouselCall ?uid ids ?tok cap,
                       Fetch (carousel_url ?uid ids ec ?tok) (Created cid), Returned cid]"
      by (simp add: steps_of_def)
    from root_ok(6)
    have "steps_of ev = steps_of ev1 @ steps_of ev2 @ steps_of ev4 @ steps_of ev5"
      by (simp add: steps_of_append steps_of_notify)
    with s1 s2 s4 s5
    have "steps_of ev = upload_calls bs urls @ item_steps user urls eus ids @
                 [CarouselCall ?uid ids ?tok cap,
                  Fetch (carousel_url ?uid ids ec ?tok) (Created cid), Returned cid,
                  PublishCall ?uid cid ?tok,
                  Fetch (publish_url ?uid cid ?tok) (Created pid), Returned pid]"
      by simp
    with eus ec show ?thesis by blast
  qed
  from l1 l2 calls mock real show ?thesis by (intro exI [of _ urls] exI [of _ ids] exI [of _ cid]) simp
qed

lemma returned_of_failed: "isl (fetch_outcome fr) \<Longrightarrow> returned_of fr = []"
  by (cases fr) auto

lemma fetch_outcome_Inl:
  "fetch_outcome fr = Inl e \<Longrightarrow> isl (fetch_outcome fr) \<and> returned_of fr = []"
  by (cases fr) auto

lemma steps_of_returned_of: "steps_of (returned_of fr) = returned_of fr"
  by (cases fr) (simp_all add: steps_of_def)

section \<open>Claims about the markup\<close>

text \<open>
  Claim C5, as amended. For the line \<^verbatim>\<open><mark>a</mark><b>b</b>\<close> the output is one
  fragment of five segments: the highlight segment \<open>a\<close> and the bold segment \<open>b\<close>, in
  that order, with an empty plain-text segment before, between and after them. The
  split keeps the empty pieces around adjacent matches and the callback maps each of
  them to a plain segment.
\<close>

theorem adjacent_tags_segments:
  "renderFormattedText (js ''<mark>a</mark><b>b</b>'') =
     Some [\<lparr>segments = [PlainText [], Highlight (js ''a''), PlainText [],
                         Bold (js ''b''), PlainText []],
            br = False\<rparr>]"
  by code_simp

text \<open>Claim C5 as stated fails: the output is not the two segments alone.\<close>

theorem adjacent_tags_counterexample:
  "output_lines (renderFormattedText (js ''<mark>a</mark><b>b</b>'')) \<noteq>
     [[Highlight (js ''a''), Bold (js ''b'')]]"
  by code_simp

text \<open>
  Claim C6, as amended. For every non-empty input that contains neither opening tag,
  the output has one line per piece of the split on U+000A, and each line is the single
  plain-text segment holding that piece; the input \<open>a\<close>, line feed, \<open>b\<close> gives the two
  lines \<open>a\<close> and \<open>b\<close>.
\<close>

theorem no_tags_one_plain_segment_per_line:
  "(text \<noteq> [] \<and> \<not> includes_str text tag_b \<and> \<not> includes_str text tag_mark \<longrightarrow>
      output_lines (renderFormattedText text) = map plain_line (split_nl [] text))
   \<and> output_lines (renderFormattedText (js ''a'' @ [10] @ js ''b'')) =
       [[PlainText (js ''a'')], [PlainText (js ''b'')]]"
proof
  show "text \<noteq> [] \<and> \<not> includes_str text tag_b \<and> \<not> includes_str text tag_mark \<longrightarrow>
      output_lines (renderFormattedText text) = map plain_line (split_nl [] text)"
  proof
    assume a: "text \<noteq> [] \<and> \<not> includes_str text tag_b \<and> \<not> includes_str text tag_mark"
    have "render_line l = plain_line l" if "l \<in> set (split_nl [] text)" for l
    proof -
      from that have "includes_str text l" using split_nl_includes [of l "[]" "text"] by simp
      with a have "\<not> includes_str l tag_b" "\<not> includes_str l tag_mark"
        using includes_str_trans by blast+
      then show ?thesis by (simp add: render_line_no_open plain_line_def)
    qed
    then have "map render_line (split_nl [] text) = map plain_line (split_nl [] text)"
      by simp
    with a show "output_lines (renderFormattedText text) = map plain_line (split_nl [] text)"
      by (simp add: output_lines_render)
  qed
next
  show "output_lines (renderFormattedText (js ''a'' @ [10] @ js ''b'')) =
       [[PlainText (js ''a'')], [PlainText (js ''b'')]]"
    by code_simp
qed

theorem no_tags_one_plain_segment_per_line_witness:
  "[97, 32, 60, 10, 98] \<noteq> [] \<and> \<not> includes_str [97, 32, 60, 10, 98] tag_b
   \<and> \<not> includes_str [97, 32, 60, 10, 98] tag_mark
   \<and> output_lines (renderFormattedText [97, 32, 60, 10, 98]) =
       [[PlainText [97, 32, 60]], [PlainText [98]]]"
proof -
  have h: "[97, 32, 60, 10, 98] \<noteq> [] \<and> \<not> includes_str [97, 32, 60, 10, 98] tag_b
   \<and> \<not> includes_str [97, 32, 60, 10, 98] tag_mark"
    by code_simp
  have s: "map plain_line (split_nl [] [97, 32, 60, 10, 98]) = [[PlainText [97, 32, 60]], [PlainText [98]]]"
    by code_simp
  from no_tags_one_plain_segment_per_line [of "[97, 32, 60, 10, 98]"] h s
  show ?thesis by simp
qed

text \<open>
  Claim C6 as stated fails at the empty string: it has no tag and splits into the one
  line \<open>""\<close>, but the result is \<open>null\<close>, so no line is returned for it.
\<close>

theorem empty_input_counterexample:
  "\<not> includes_str [] tag_b \<and> \<not> includes_str [] tag_mark
   \<and> output_lines (renderFormattedText []) = []
   \<and> map plain_line (split_nl [] []) = [[PlainText []]]"
  by code_simp

text \<open>
  Claim C7. Every operation of \<open>renderFormattedText\<close> (\<open>split\<close>, \<open>map\<close>,
  \<open>startsWith\<close>, \<open>endsWith\<close>, \<open>slice\<close>) is defined on every string, so the model has
  no error result: for every input the result is \<open>null\<close> or a list of fragments. The
  theorem says what that result holds. For every input, putting the source text of
  the segments of each line back together gives exactly the lines of the input, so no
  character is dropped or invented. A line without any closing tag, and a line
  without any opening tag, is one plain-text segment holding the line literally. The
  input \<^verbatim>\<open><b>oops\<close> gives the single plain-text segment \<^verbatim>\<open><b>oops\<close>.
\<close>

theorem malformed_markup_is_plain_text:
  "map (concat \<circ> map segment_source) (output_lines (renderFormattedText text)) =
     (if text = [] then [] else split_nl [] text)
   \<and> (\<not> includes_str line tag_b_end \<and> \<not> includes_str line tag_mark_end \<longrightarrow>
        render_line line = [PlainText line])
   \<and> (\<not> includes_str line tag_b \<and> \<not> includes_str line tag_mark \<longrightarrow>
        render_line line = [PlainText line])
   \<and> renderFormattedText (js ''<b>oops'') =
        Some [\<lparr>segments = [PlainText (js ''<b>oops'')], br = False\<rparr>]"
proof (intro conjI)
  show "map (concat \<circ> map segment_source) (output_lines (renderFormattedText text)) =
     (if text = [] then [] else split_nl [] text)"
  proof (cases "text = []")
    case True
    then show ?thesis by (simp add: renderFormattedText_def output_lines_def)
  next
    case False
    have "(concat \<circ> map segment_source) \<circ> render_line = id"
      by (rule ext) (simp add: concat_source_render_line)
    with False show ?thesis by (simp add: output_lines_render)
  qed
next
  show "\<not> includes_str line tag_b_end \<and> \<not> includes_str line tag_mark_end \<longrightarrow>
        render_line line = [PlainText line]"
    by (simp add: render_line_no_close)
next
  show "\<not> includes_str line tag_b \<and> \<not> includes_str line tag_mark \<longrightarrow>
        render_line line = [PlainText line]"
    by (simp add: render_line_no_open)
next
  show "renderFormattedText (js ''<b>oops'') =
        Some [\<lparr>segments = [PlainText (js ''<b>oops'')], br = False\<rparr>]"
    by code_simp
qed

theorem malformed_markup_is_plain_text_witness:
  "\<not> includes_str (js ''<b>x <mark>y'') tag_b_end
   \<and> \<not> includes_str (js ''<b>x <mark>y'') tag_mark_end
   \<and> render_line (js ''<b>x <mark>y'') = [PlainText (js ''<b>x <mark>y'')]
   \<and> \<not> includes_str (js ''x</b> <i>y</i>'') tag_b
   \<and> \<not> includes_str (js ''x</b> <i>y</i>'') tag_mark
   \<and> render_line (js ''x</b> <i>y</i>'') = [PlainText (js ''x</b> <i>y</i>'')]"
proof -
  have h1: "\<not> includes_str (js ''<b>x <mark>y'') tag_b_end
   \<and> \<not> includes_str (js ''<b>x <mark>y'') tag_mark_end"
    by code_simp
  have h2: "\<not> includes_str (js ''x</b> <i>y</i>'') tag_b
   \<and> \<not> includes_str (js ''x</b> <i>y</i>'') tag_mark"
    by code_simp
  from h1 h2
    malformed_markup_is_plain_text [of "[]" "js ''<b>x <mark>y''"]
    malformed_markup_is_plain_text [of "[]" "js ''x</b> <i>y</i>''"]
  show ?thesis by blast
qed



text \<open>
  Claim C10. The result for the empty string is \<open>null\<close>, which has no lines, and the
  empty string is the only input whose output has no lines.
\<close>

theorem empty_string_only_input_without_lines:
  "renderFormattedText [] = None
   \<and> (length (output_lines (renderFormattedText text)) = 0 \<longleftrightarrow> text = [])"
proof
  show "renderFormattedText [] = None" by (simp add: renderFormattedText_def)
next
  show "length (output_lines (renderFormattedText text)) = 0 \<longleftrightarrow> text = []"
  proof (cases "text = []")
    case True
    then show ?thesis by (simp add: renderFormattedText_def output_lines_def)
  next
    case False
    then show ?thesis by (simp add: output_lines_render split_nl_not_Nil)
  qed
qed

section \<open>Claims about the publishing workflow\<close>

text \<open>
  Claim C1. A run on two or more assets in which no step fails makes, after the uploads
  of the blobs in their order, one item-container call per uploaded URL in that order,
  each flagged as a carousel item and without caption; then one carousel call whose
  children are the ids the item calls returned, in that order, with the caption; then
  one publish call on the id the carousel call returned. It makes no other call. On
  the sentinel account no request is sent. On any other account each call sends exactly
  one request, between the call and its return: the item calls post the encoded image
  URLs in upload order with \<^verbatim>\<open>is_carousel_item=true\<close>, the carousel call posts
  \<^verbatim>\<open>media_type=CAROUSEL\<close> with the returned ids joined by commas in that order as
  \<^verbatim>\<open>children\<close>, and the publish call posts the carousel id as \<^verbatim>\<open>creation_id\<close>.
\<close>

theorem carousel_calls_in_upload_order:
  assumes "2 \<le> length bs"
    and "publishCarouselToInstagram E user bs cap sink = (Inr pid, ev)"
  shows "\<exists>urls ids root. length urls = length bs \<and> length ids = length bs
     \<and> calls_of ev = upload_calls bs urls @ item_calls user urls ids @
         [CarouselCall (user_id user) ids (accessToken user) cap, Returned root,
          PublishCall (user_id user) root (accessToken user), Returned pid]
     \<and> (user_id user = MOCK_USER_ID \<longrightarrow> filter is_fetch ev = [])
     \<and> (user_id user \<noteq> MOCK_USER_ID \<longrightarrow>
          (\<exists>eus ec. map (encodeURIComponent E) urls = map Some eus
             \<and> encodeURIComponent E cap = Some ec
             \<and> steps_of ev = upload_calls bs urls @ item_steps user urls eus ids @
                 [CarouselCall (user_id user) ids (accessToken user) cap,
                  Fetch (carousel_url (user_id user) ids ec (accessToken user)) (Created root),
                  Returned root,
                  PublishCall (user_id user) root (accessToken user),
                  Fetch (publish_url (user_id user) root (accessToken user)) (Created pid),
                  Returned pid]))"
proof -
  from assms(1) have "length bs \<noteq> 1" by simp
  with assms(2) show ?thesis by (rule carousel_run_trace)
qed

theorem carousel_calls_in_upload_order_witness:
  "2 \<le> length [[1], [2::nat]]
   \<and> user_id real_user \<noteq> MOCK_USER_ID
   \<and> fst (publishCarouselToInstagram (test_env 100) real_user [[1], [2]] (js ''hi'') True) = Inr (js ''id20'')
   \<and> filter is_fetch (snd (publishCarouselToInstagram (test_env 100) real_user [[1], [2]] (js ''hi'') True)) =
       [Fetch (js ''https://graph.facebook.com/v19.0/17841400000000000/media?image_url=https://images.unsplash.com/photo-1611162617474-5b21e879e113?w=1080&q=80&random=0.2&access_token=EAAB&is_carousel_item=true'')
          (Created (js ''id8'')),
        Fetch (js ''https://graph.facebook.com/v19.0/17841400000000000/media?image_url=https://images.unsplash.com/photo-1611162617474-5b21e879e113?w=1080&q=80&random=0.5&access_token=EAAB&is_carousel_item=true'')
          (Created (js ''id12'')),
        Fetch (js ''https://graph.facebook.com/v19.0/17841400000000000/media?media_type=CAROUSEL&children=id8,id12&caption=hi&access_token=EAAB'')
          (Created (js ''id16'')),
        Fetch (js ''https://graph.facebook.com/v19.0/17841400000000000/media_publish?creation_id=id16&access_token=EAAB'')
          (Created (js ''id20''))]
   \<and> (\<exists>urls ids root. length urls = length [[1], [2::nat]]
        \<and> length ids = length [[1], [2::nat]]
        \<and> calls_of (snd (publishCarouselToInstagram (test_env 100) real_user [[1], [2]] (js ''hi'') True)) =
            upload_calls [[1], [2]] urls @ item_calls real_user urls ids @
            [CarouselCall (user_id real_user) ids (accessToken real_user) (js ''hi''),
             Returned root,
             PublishCall (user_id real_user) root (accessToken real_user),
             Returned (js ''id20'')]
        \<and> (\<exists>eus ec. map (encodeURIComponent (test_env 100)) urls = map Some eus
             \<and> encodeURIComponent (test_env 100) (js ''hi'') = Some ec
             \<and> steps_of (snd (publishCarouselToInstagram (test_env 100) real_user [[1], [2]] (js ''hi'') True)) =
                 upload_calls [[1], [2]] urls @ item_steps real_user urls eus ids @
                 [CarouselCall (user_id real_user) ids (accessToken real_user) (js ''hi''),
                  Fetch (carousel_url (user_id real_user) ids ec (accessToken real_user))
                    (Created root),
                  Returned root,
                  PublishCall (user_id real_user) root (accessToken real_user),
                  Fetch (publish_url (user_id real_user) root (accessToken real_user))
                    (Created (js ''id20'')),
                  Returned (js ''id20'')]))"
proof -
  have n: "2 \<le> length [[1], [2::nat]]" by simp
  have ne: "user_id real_user \<noteq> MOCK_USER_ID" by code_simp
  have h: "fst (publishCarouselToInstagram (test_env 100) real_user [[1], [2]] (js ''hi'') True) = Inr (js ''id20'')"
    by code_simp
  then have e: "publishCarouselToInstagram (test_env 100) real_user [[1], [2]] (js ''hi'') True
      = (Inr (js ''id20''), snd (publishCarouselToInstagram (test_env 100) real_user [[1], [2]] (js ''hi'') True))"
    by (simp add: prod_eq_iff)
  have f: "filter is_fetch (snd (publishCarouselToInstagram (test_env 100) real_user [[1], [2]] (js ''hi'') True)) =
       [Fetch (js ''https://graph.facebook.com/v19.0/17841400000000000/media?image_url=https://images.unsplash.com/photo-1611162617474-5b21e879e113?w=1080&q=80&random=0.2&access_token=EAAB&is_carousel_item=true'')
          (Created (js ''id8'')),
        Fetch (js ''https://graph.facebook.com/v19.0/17841400000000000/media?image_url=https://images.unsplash.com/photo-1611162617474-5b21e879e113?w=1080&q=80&random=0.5&access_token=EAAB&is_carousel_item=true'')
          (Created (js ''id12'')),
        Fetch (js ''https://graph.facebook.com/v19.0/17841400000000000/media?media_type=CAROUSEL&children=id8,id12&caption=hi&access_token=EAAB'')
          (Created (js ''id16'')),
        Fetch (js ''https://graph.facebook.com/v19.0/17841400000000000/media_publish?creation_id=id16&access_token=EAAB'')
          (Created (js ''id20''))]"
    by code_simp
  from carousel_calls_in_upload_order [OF n e] n ne h f show ?thesis by blast
qed

text \<open>
  Claim C2. A run on exactly one asset makes, after the upload, exactly one
  container-creation call: an item-container call for the uploaded URL that carries
  the caption and is not flagged as a carousel item. It makes no carousel call. When
  that call returns an id, the publish call follows on that id; when it throws, the run
  ends with no publish call. On the sentinel account no request is sent. On any other
  account the item call, unless \<open>encodeURIComponent\<close> throws, sends one request that
  carries the encoded image URL and the encoded caption as \<^verbatim>\<open>caption\<close> and no
  carousel-item flag; when it comes back with an id, the publish call sends one request
  with that id as \<^verbatim>\<open>creation_id\<close>, and the result of the run is what that request
  comes to.
\<close>

theorem single_asset_one_container_then_finalize:
  assumes run: "publishCarouselToInstagram E user [b] cap sink = (r, ev)"
  shows "\<exists>url.
      ((\<exists>e. r = Inl e \<and> calls_of ev =
         [UploadCall b, UploadReturn url,
          ItemCall (user_id user) url (accessToken user) cap False])
       \<or> (\<exists>e cid. r = Inl e \<and> calls_of ev =
         [UploadCall b, UploadReturn url,
          ItemCall (user_id user) url (accessToken user) cap False, Returned cid,
          PublishCall (user_id user) cid (accessToken user)])
       \<or> (\<exists>cid pid. r = Inr pid \<and> calls_of ev =
         [UploadCall b, UploadReturn url,
          ItemCall (user_id user) url (accessToken user) cap False, Returned cid,
          PublishCall (user_id user) cid (accessToken user), Returned pid]))
    \<and> (user_id user = MOCK_USER_ID \<longrightarrow> filter is_fetch ev = [])
    \<and> (user_id user \<noteq> MOCK_USER_ID \<longrightarrow>
        ((r = Inl URIError \<and> steps_of ev =
            [UploadCall b, UploadReturn url,
             ItemCall (user_id user) url (accessToken user) cap False])
       \<or> (\<exists>eu ec fr. encodeURIComponent E url = Some eu
            \<and> encodeURIComponent E cap = Some ec
            \<and> isl (fetch_outcome fr) \<and> r = fetch_outcome fr
            \<and> steps_of ev =
               [UploadCall b, UploadReturn url,
                ItemCall (user_id user) url (accessToken user) cap False,
                Fetch (single_image_url (user_id user) eu (accessToken user) ec) fr])
       \<or> (\<exists>eu ec cid fr. encodeURIComponent E url = Some eu
            \<and> encodeURIComponent E cap = Some ec
            \<and> r = fetch_outcome fr
            \<and> steps_of ev =
               [UploadCall b, UploadReturn url,
                ItemCall (user_id user) url (accessToken user) cap False,
                Fetch (single_image_url (user_id user) eu (accessToken user) ec) (Created cid),
                Returned cid,
                PublishCall (user_id user) cid (accessToken user),
                Fetch (publish_url (user_id user) cid (accessToken user)) fr]
               @ returned_of fr)))"
    (is "\<exists>url. ?calls url \<and> ?mock \<and> (?real \<longrightarrow> ?steps url)")
proof -
  let ?uid = "user_id user" and ?tok = "accessToken user"
  have one: "\<exists>url. urls = [url] \<and> calls_of ev1 = [UploadCall b, UploadReturn url]
                \<and> steps_of ev1 = [UploadCall b, UploadReturn url]"
    if "upload_loop E [] sink (length [b]) 0 [b] = (urls, ev1)" for urls ev1
  proof -
    from upload_loop_calls [OF that] upload_loop_steps [OF that]
    have l: "length urls = 1" and c: "calls_of ev1 = upload_calls [b] urls"
      and s: "steps_of ev1 = upload_calls [b] urls" by simp_all
    from l obtain url where "urls = [url]" by (cases urls) auto
    with c s show ?thesis by simp
  qed
  have mock: ?mock using publish_mock [OF _ run] by simp
  from run show ?thesis
  proof (cases rule: publish_cases)
    case (single_fail urls ev1 e ev3)
    from one [OF single_fail(1)] obtain url where u: "urls = [url]"
      and c1: "calls_of ev1 = [UploadCall b, UploadReturn url]"
      and s1: "steps_of ev1 = [UploadCall b, UploadReturn url]" by blast
    note it = single_fail(3) [unfolded u, simplified]
    from createItemContainer_shape [OF it]
    have "calls_of ev3 = [ItemCall ?uid url ?tok cap False]"
      by (simp add: call_shape_calls_fail)
    with single_fail(4,5) c1 have calls: "?calls url"
      by (simp add: calls_of_append calls_of_notify)
    have steps: "?steps url" if real: ?real
    proof -
      from single_fail(5)
      have sp: "steps_of ev = steps_of ev1 @ steps_of ev3"
        by (simp add: steps_of_append steps_of_notify)
      from createItemContainer_real [OF real it]
      consider (uri) "e = URIError" "ev3 = [ItemCall ?uid url ?tok cap False]"
        | (fetch) eu ec fr where "encodeURIComponent E url = Some eu"
            "encodeURIComponent E cap = Some ec" "Inl e = fetch_outcome fr"
            "ev3 = ItemCall ?uid url ?tok cap False
                   # Fetch (single_image_url ?uid eu ?tok ec) fr # returned_of fr"
        by auto
      then show ?thesis
      proof cases
        case uri
        with sp s1 single_fail(4) show ?thesis by (simp add: steps_of_def)
      next
        case fetch
        from fetch(3) have f: "isl (fetch_outcome fr)" "returned_of fr = []"
          using fetch_outcome_Inl [of fr e] by simp_all
        with fetch(4) have "steps_of ev3 = [ItemCall ?uid url ?tok cap False,
            Fetch (single_image_url ?uid eu ?tok ec) fr]"
          by (simp add: steps_of_def)
        with sp s1 have "steps_of ev = [UploadCall b, UploadReturn url,
            ItemCall ?uid url ?tok cap False, Fetch (single_image_url ?uid eu ?tok ec) fr]"
          by simp
        with fetch(1,2,3) f(1) single_fail(4) show ?thesis by auto
      qed
    qed
    from calls mock steps show ?thesis by blast
  next
    case (single_ok urls ev1 cid ev3 ev4)
    from one [OF single_ok(1)] obtain url where u: "urls = [url]"
      and c1: "calls_of ev1 = [UploadCall b, UploadReturn url]"
      and s1: "steps_of ev1 = [UploadCall b, UploadReturn url]" by blast
    note it = single_ok(3) [unfolded u, simplified]
    from createItemContainer_shape [OF it]
    have c3: "calls_of ev3 = [ItemCall ?uid url ?tok cap False, Returned cid]"
      by (simp add: call_shape_calls_ok)
    have calls: "?calls url"
    proof (cases r)
      case (Inl e)
      from finalize_calls_fail [OF single_ok(4) [unfolded Inl]] single_ok(5) c1 c3 Inl
      show ?thesis by (simp add: calls_of_append calls_of_notify)
    next
      case (Inr pid)
      from finalize_calls_ok [OF single_ok(4) [unfolded Inr]] single_ok(5) c1 c3 Inr
      show ?thesis by (simp add: calls_of_append calls_of_notify)
    qed
    have steps: "?steps url" if real: ?real
    proof -
      from single_ok(5)
      have sp: "steps_of ev = steps_of ev1 @ steps_of ev3 @ steps_of ev4"
        by (simp add: steps_of_append steps_of_notify)
      from createItemContainer_real [OF real it] obtain eu ec where
        eu: "encodeURIComponent E url = Some eu" and ec: "encodeURIComponent E cap = Some ec"
        and ev3: "ev3 = [ItemCall ?uid url ?tok cap False,
                    Fetch (single_image_url ?uid eu ?tok ec) (Created cid), Returned cid]"
        by (auto simp: fetch_outcome_Inr)
      from ev3 have s3: "steps_of ev3 = [ItemCall ?uid url ?tok cap False,
                    Fetch (single_image_url ?uid eu ?tok ec) (Created cid), Returned cid]"
        by (simp add: steps_of_def)
      from finalize_real [OF real single_ok(4)] obtain fr where
        r: "r = fetch_outcome fr"
        and s4: "steps_of ev4 = PublishCall ?uid cid ?tok
                   # Fetch (publish_url ?uid cid ?tok) fr # returned_of fr" by blast
      from sp s1 s3 s4 have "steps_of ev =
               [UploadCall b, UploadReturn url, ItemCall ?uid url ?tok cap False,
                Fetch (single_image_url ?uid eu ?tok ec) (Created cid), Returned cid,
                PublishCall ?uid cid ?tok, Fetch (publish_url ?uid cid ?tok) fr]
               @ returned_of fr"
        by simp
      with eu ec r show ?thesis by blast
    qed
    from calls mock steps show ?thesis by blast
  next
    case (items_fail urls ev1 e ev2)
    with upload_loop_calls [OF items_fail(1)] show ?thesis by simp
  next
    case (root_fail urls ev1 ids ev2 e ev4)
    with upload_loop_calls [OF root_fail(1)] show ?thesis by simp
  next
    case (root_ok urls ev1 ids ev2 cid ev4 ev5)
    with upload_loop_calls [OF root_ok(1)] show ?thesis by simp
  qed
qed

theorem single_asset_one_container_then_finalize_witness:
  "user_id real_user \<noteq> MOCK_USER_ID
   \<and> fst (publishCarouselToInstagram (test_env 100) real_user [[1]] (js ''hi'') True) = Inr (js ''id9'')
   \<and> steps_of (snd (publishCarouselToInstagram (test_env 100) real_user [[1]] (js ''hi'') True)) =
       [UploadCall [1], UploadReturn (js ''https://images.unsplash.com/photo-1611162617474-5b21e879e113?w=1080&q=80&random=0.2''),
        ItemCall (user_id real_user) (js ''https://images.unsplash.com/photo-1611162617474-5b21e879e113?w=1080&q=80&random=0.2'') (accessToken real_user) (js ''hi'') False,
        Fetch (js ''https://graph.facebook.com/v19.0/17841400000000000/media?image_url=https://images.unsplash.com/photo-1611162617474-5b21e879e113?w=1080&q=80&random=0.2&access_token=EAAB&caption=hi'')
          (Created (js ''id5'')),
        Returned (js ''id5''),
        PublishCall (user_id real_user) (js ''id5'') (accessToken real_user),
        Fetch (js ''https://graph.facebook.com/v19.0/17841400000000000/media_publish?creation_id=id5&access_token=EAAB'')
          (Created (js ''id9'')),
        Returned (js ''id9'')]
   \<and> (\<exists>url cid. calls_of (snd (publishCarouselToInstagram (test_env 100) real_user [[1]] (js ''hi'') True)) =
         [UploadCall [1], UploadReturn url,
          ItemCall (user_id real_user) url (accessToken real_user) (js ''hi'') False,
          Returned cid,
          PublishCall (user_id real_user) cid (accessToken real_user),
          Returned (js ''id9'')])"
proof -
  have ne: "user_id real_user \<noteq> MOCK_USER_ID" by code_simp
  have h: "fst (publishCarouselToInstagram (test_env 100) real_user [[1]] (js ''hi'') True) = Inr (js ''id9'')"
    by code_simp
  have s: "steps_of (snd (publishCarouselToInstagram (test_env 100) real_user [[1]] (js ''hi'') True)) =
       [UploadCall [1], UploadReturn (js ''https://images.unsplash.com/photo-1611162617474-5b21e879e113?w=1080&q=80&random=0.2''),
        ItemCall (user_id real_user) (js ''https://images.unsplash.com/photo-1611162617474-5b21e879e113?w=1080&q=80&random=0.2'') (accessToken real_user) (js ''hi'') False,
        Fetch (js ''https://graph.facebook.com/v19.0/17841400000000000/media?image_url=https://images.unsplash.com/photo-1611162617474-5b21e879e113?w=1080&q=80&random=0.2&access_token=EAAB&caption=hi'')
          (Created (js ''id5'')),
        Returned (js ''id5''),
        PublishCall (user_id real_user) (js ''id5'') (accessToken real_user),
        Fetch (js ''https://graph.facebook.com/v19.0/17841400000000000/media_publish?creation_id=id5&access_token=EAAB'')
          (Created (js ''id9'')),
        Returned (js ''id9'')]"
    by code_simp
  from single_asset_one_container_then_finalize [OF prod.collapse [symmetric],
      of "test_env 100" real_user "[1]" "js ''hi''" True] h
  have "\<exists>url cid. calls_of (snd (publishCarouselToInstagram (test_env 100) real_user [[1]] (js ''hi'') True)) =
         [UploadCall [1], UploadReturn url,
          ItemCall (user_id real_user) url (accessToken real_user) (js ''hi'') False,
          Returned cid,
          PublishCall (user_id real_user) cid (accessToken real_user),
          Returned (js ''id9'')]"
    by auto
  with ne h s show ?thesis by blast
qed

text \<open>
  Claim C3. When a fetch of a run comes back with an error payload, that fetch is the
  last event of the run: no upload, no container creation, no publish call and no
  progress message follows it. The run ends with the \<open>Error\<close> that carries exactly the
  message of the payload.
\<close>

theorem first_remote_error_ends_run:
  assumes "publishCarouselToInstagram E user bs cap sink = (r, ev)"
    and "error_payload_at ev k = Some m"
  shows "Suc k = length ev \<and> r = Inl (Error m)"
proof -
  from assms(2) obtain u where
    ev: "ev = take k ev @ Fetch u (ErrorPayload m) # drop (Suc k) ev" and k: "k < length ev"
    by (rule error_payload_at_split)
  from halts_on_error_split [OF publish_halts [OF assms(1)] ev]
  have "drop (Suc k) ev = []" and r: "r = Inl (Error m)" by simp_all
  with k have "Suc k = length ev" by simp
  with r show ?thesis by simp
qed

theorem first_remote_error_ends_run_witness:
  "error_payload_at (snd (publishCarouselToInstagram (test_env 12) real_user [[1], [2]] (js ''hi'') True)) 12 = Some (js ''Invalid image'')
   \<and> Suc 12 = length (snd (publishCarouselToInstagram (test_env 12) real_user [[1], [2]] (js ''hi'') True))
   \<and> fst (publishCarouselToInstagram (test_env 12) real_user [[1], [2]] (js ''hi'') True) = Inl (Error (js ''Invalid image''))"
proof -
  have h: "error_payload_at (snd (publishCarouselToInstagram (test_env 12) real_user [[1], [2]] (js ''hi'') True)) 12 = Some (js ''Invalid image'')"
    by code_simp
  from first_remote_error_ends_run [OF prod.collapse [symmetric] h] h
  show ?thesis by simp
qed

text \<open>
  Claim C4, as amended. A run on the sentinel account makes no fetch at any step, and
  ends with a made-up id unless \<open>encodeURIComponent\<close> throws. Its progress messages are
  the same, in the same order, as those of a run on any account with the same blobs,
  caption, sink and environment in which no fetch fails.
\<close>

theorem sentinel_run_no_fetch_same_progress:
  assumes "user_id mock = MOCK_USER_ID"
    and "publishCarouselToInstagram E mock bs cap sink = (r, ev)"
    and "publishCarouselToInstagram E real bs cap sink = (r', ev')"
    and "list_all fetch_created ev'"
  shows "filter is_fetch ev = []
     \<and> (r = Inl URIError \<or> (\<exists>pid. r = Inr pid))
     \<and> progress_of ev = progress_of ev'"
proof -
  from publish_mock [OF assms(1,2)]
  have nf: "filter is_fetch ev = []" and res: "\<forall>e. r = Inl e \<longrightarrow> e = URIError"
    by simp_all
  from res have "r = Inl URIError \<or> (\<exists>pid. r = Inr pid)" by (cases r) auto
  moreover from assms(1) have "fetches_ok mock ev" by (simp add: fetches_ok_def)
  moreover from assms(4) have "fetches_ok real ev'" by (simp add: fetches_ok_def)
  ultimately show ?thesis using nf publish_sim [OF assms(2,3)] by simp
qed

theorem sentinel_run_no_fetch_same_progress_witness:
  "user_id demo_user = MOCK_USER_ID
   \<and> list_all fetch_created (snd (publishCarouselToInstagram (test_env 100) real_user [[1], [2]] (js ''hi'') True))
   \<and> filter is_fetch (snd (publishCarouselToInstagram (test_env 100) demo_user [[1], [2]] (js ''hi'') True)) = []
   \<and> progress_of (snd (publishCarouselToInstagram (test_env 100) demo_user [[1], [2]] (js ''hi'') True)) = progress_of (snd (publishCarouselToInstagram (test_env 100) real_user [[1], [2]] (js ''hi'') True))"
proof -
  have m: "user_id demo_user = MOCK_USER_ID" by (simp add: demo_user_def)
  have c: "list_all fetch_created (snd (publishCarouselToInstagram (test_env 100) real_user [[1], [2]] (js ''hi'') True))"
    by code_simp
  from sentinel_run_no_fetch_same_progress
    [OF m prod.collapse [symmetric] prod.collapse [symmetric] c] m c
  show ?thesis by simp
qed

text \<open>
  Claim C4 as stated fails, since the real run need not get that far. When the second
  item-container request comes back with an error payload, the run on the real account
  has sent four progress messages, and the run on the sentinel account with the same
  inputs all six.
\<close>

theorem real_run_failure_counterexample:
  "user_id demo_user = MOCK_USER_ID
   \<and> length (progress_of (snd (publishCarouselToInstagram (test_env 12) demo_user [[1], [2]] (js ''hi'') True))) = 6
   \<and> length (progress_of (snd (publishCarouselToInstagram (test_env 12) real_user [[1], [2]] (js ''hi'') True))) = 4"
  by code_simp

text \<open>
  Claim C8, as amended. A run on an empty asset list makes no upload and no
  item-container call. It takes the carousel branch: one carousel call with no
  children, and when that returns an id, one publish call on that id. The run fails
  only when one of these two calls throws. On the sentinel account, when the caption
  can be encoded, neither throws and the run ends with a made-up published id.
\<close>

theorem empty_asset_list_takes_carousel_branch:
  assumes "publishCarouselToInstagram E user [] cap sink = (r, ev)"
  shows "((\<exists>e. r = Inl e \<and> calls_of ev =
             [CarouselCall (user_id user) [] (accessToken user) cap])
        \<or> (\<exists>e root. r = Inl e \<and> calls_of ev =
             [CarouselCall (user_id user) [] (accessToken user) cap, Returned root,
              PublishCall (user_id user) root (accessToken user)])
        \<or> (\<exists>root pid. r = Inr pid \<and> calls_of ev =
             [CarouselCall (user_id user) [] (accessToken user) cap, Returned root,
              PublishCall (user_id user) root (accessToken user), Returned pid]))
     \<and> (user_id user = MOCK_USER_ID \<and> encodeURIComponent E cap \<noteq> None \<longrightarrow>
          (\<exists>pid. r = Inr pid))"
  using empty_run_calls [OF assms] empty_run_mock_succeeds [OF assms] by blast

theorem empty_asset_list_takes_carousel_branch_witness:
  "user_id demo_user = MOCK_USER_ID
   \<and> encodeURIComponent (test_env 100) (js ''hi'') \<noteq> None
   \<and> (\<exists>pid. fst (publishCarouselToInstagram (test_env 100) demo_user [] (js ''hi'') True) = Inr pid)"
proof -
  have h: "user_id demo_user = MOCK_USER_ID
           \<and> encodeURIComponent (test_env 100) (js ''hi'') \<noteq> None"
    by (simp add: demo_user_def test_env_def)
  from empty_asset_list_takes_carousel_branch [OF prod.collapse [symmetric],
      of "test_env 100" demo_user "js ''hi''" True] h
  show ?thesis by blast
qed

text \<open>
  Claim C8 as stated fails: the run on the sentinel account with no asset does not
  fail, it makes the carousel call and the publish call and returns a published id.
\<close>

theorem empty_asset_list_counterexample:
  "fst (publishCarouselToInstagram (test_env 100) demo_user [] (js ''hi'') True) = Inr (js ''published_media_1700000000000'')
   \<and> calls_of (snd (publishCarouselToInstagram (test_env 100) demo_user [] (js ''hi'') True)) =
       [CarouselCall MOCK_USER_ID [] (js ''mock_token_123'') (js ''hi''),
        Returned (js ''carousel_container_1700000000000''),
        PublishCall MOCK_USER_ID (js ''carousel_container_1700000000000'')
          (js ''mock_token_123''),
        Returned (js ''published_media_1700000000000'')]"
  by code_simp

end
